theory Spec2Isabelle
  imports Complex_Main "HOL-Library.Sublist"
begin

section \<open>Data model (backend/app/models.py)\<close>

text \<open>
  \<open>JobStatus\<close> is the enum of the source.  A \<open>Job\<close> row is keyed by its id in the
  store, so the id is the key of the map and not a field; \<open>created_at\<close> is never read or
  written by the service and is left out.
\<close>

datatype JobStatus = QUEUED | PROCESSING | COMPLETED | FAILED

record Job =
  status :: JobStatus
  title :: "string option"
  prompt :: string
  lyrics :: "string option"
  tags :: "string option"
  seed :: "int option"
  audio_path :: "string option"
  duration_ms :: int
  error_msg :: "string option"

record GenerationRequest =
  r_prompt :: string
  r_lyrics :: "string option"
  r_duration_ms :: int
  r_temperature :: real
  r_cfg_scale :: real
  r_topk :: int
  r_tags :: "string option"
  r_seed :: "int option"
  r_llm_model :: "string option"
  r_parent_job_id :: "string option"
  r_ref_audio_id :: "string option"
  r_style_influence :: real
  r_ref_audio_start_sec :: "real option"

section \<open>EventManager (music\_service.py, lines 408--442)\<close>

text \<open>
  A published message is the text \<open>event: <type>\ndata: <json.dumps(data)>\n\n\<close>.  The
  text is a function of the pair (event type, data), and the model keeps the pair: an
  event type and the items of the data dict in the order the source writes them.
\<close>

datatype jval = JStr string | JInt int | JNum real

type_synonym event = "string \<times> (string \<times> jval) list"

text \<open>
  \<open>asyncio.Queue\<close>: \<open>maxsize\<close> is the constructor's argument (default 0), \<open>items\<close> the
  buffered messages, oldest first, and \<open>qid\<close> the identity of the Python object (the
  source compares queues by identity in \<open>unsubscribe\<close>).  As in asyncio, a queue whose
  \<open>maxsize\<close> is not positive is never full, and \<open>put_nowait\<close> raises \<open>QueueFull\<close> on a
  full queue.
\<close>

record Queue =
  qid :: nat
  maxsize :: int
  items :: "event list"

datatype QueueFull = QueueFull

definition Queue_new :: "nat \<Rightarrow> Queue" where
  "Queue_new i = \<lparr>qid = i, maxsize = 0, items = []\<rparr>"

definition full :: "Queue \<Rightarrow> bool" where
  "full q = (if maxsize q \<le> 0 then False else maxsize q \<le> int (length (items q)))"

definition put_nowait :: "event \<Rightarrow> Queue \<Rightarrow> QueueFull + Queue" where
  "put_nowait msg q = (if full q then Inl QueueFull else Inr (q\<lparr>items := items q @ [msg]\<rparr>))"

record EventManager =
  subscribers :: "Queue list"

definition EventManager_new :: EventManager where
  "EventManager_new = \<lparr>subscribers = []\<rparr>"

text \<open>\<open>subscribe\<close>: the argument is the identity of the queue object that is created.\<close>

definition subscribe :: "nat \<Rightarrow> EventManager \<Rightarrow> Queue \<times> EventManager" where
  "subscribe i em = (let q = Queue_new i in (q, em\<lparr>subscribers := subscribers em @ [q]\<rparr>))"

fun remove_qid :: "nat \<Rightarrow> Queue list \<Rightarrow> Queue list" where
  "remove_qid i [] = []"
| "remove_qid i (q # qs) = (if qid q = i then qs else q # remove_qid i qs)"

definition unsubscribe :: "nat \<Rightarrow> EventManager \<Rightarrow> EventManager" where
  "unsubscribe i em =
     (if i \<in> qid ` set (subscribers em)
      then em\<lparr>subscribers := remove_qid i (subscribers em)\<rparr> else em)"

text \<open>One turn of the loops of \<open>publish\<close> and \<open>shutdown\<close>: \<open>QueueFull\<close> is swallowed.\<close>

definition offer :: "event \<Rightarrow> Queue \<Rightarrow> Queue" where
  "offer msg q = (case put_nowait msg q of Inl QueueFull \<Rightarrow> q | Inr q' \<Rightarrow> q')"

definition publish :: "string \<Rightarrow> (string \<times> jval) list \<Rightarrow> EventManager \<Rightarrow> EventManager" where
  "publish event_type data em = em\<lparr>subscribers := map (offer (event_type, data)) (subscribers em)\<rparr>"

definition shutdown :: "EventManager \<Rightarrow> EventManager" where
  "shutdown em = em\<lparr>subscribers := map (offer (''shutdown'', [])) (subscribers em)\<rparr>"

text \<open>
  What can happen to the event manager: the four methods, and a consumer taking the oldest
  message of a channel (\<open>await q.get()\<close> in the streaming endpoint, which is outside the
  service).
\<close>

datatype em_op =
  Subscribe nat
| Unsubscribe nat
| Publish string "(string \<times> jval) list"
| Shutdown
| Get nat

definition consume :: "nat \<Rightarrow> Queue \<Rightarrow> Queue" where
  "consume i q = (if qid q = i then q\<lparr>items := tl (items q)\<rparr> else q)"

fun em_step :: "em_op \<Rightarrow> EventManager \<Rightarrow> EventManager" where
  "em_step (Subscribe i) em = snd (subscribe i em)"
| "em_step (Unsubscribe i) em = unsubscribe i em"
| "em_step (Publish t d) em = publish t d em"
| "em_step Shutdown em = shutdown em"
| "em_step (Get i) em = em\<lparr>subscribers := map (consume i) (subscribers em)\<rparr>"

definition em_run :: "em_op list \<Rightarrow> EventManager" where
  "em_run ops = foldl (\<lambda>em a. em_step a em) EventManager_new ops"

text \<open>The spec's word for a channel: bounded, that is, one that a buffer can fill.\<close>

definition bounded_channel :: "Queue \<Rightarrow> bool" where
  "bounded_channel q = (\<exists>n. full (q\<lparr>items := replicate n (''job_progress'', [])\<rparr>))"

section \<open>Device placement (music\_service.py, lines 19--93)\<close>

text \<open>
  The accelerators are given by the list of their \<open>total_memory\<close> values in bytes, device
  id \<open>i\<close> at index \<open>i\<close>; \<open>torch.cuda.device_count()\<close> is the length of the list.
  \<open>_load_pipeline_multi_gpu\<close> sets \<open>self.gpu_mode\<close> and calls
  \<open>HeartMuLaGenPipeline.from_pretrained\<close>, which is outside the repository: the model
  returns the mode and the arguments of that call.  \<open>a_lazy_load = None\<close> says that the
  argument is not passed.  Memory sizes are divided as real numbers.
\<close>

datatype device = CPU | CUDA | CUDA_index nat

record pretrained_args =
  a_model_path :: string
  a_device :: device
  a_codec_device :: device
  a_version :: string
  a_load_muq_mulan :: bool
  a_lazy_load :: "bool option"

definition get_gpu_memory :: "nat list \<Rightarrow> nat \<Rightarrow> real" where
  "get_gpu_memory total_memory device_id = real (total_memory ! device_id) / 1024 ^ 3"

text \<open>
  Python's \<open>max(d, key=f)\<close> and \<open>min(d, key=f)\<close> over the keys of a non-empty dict: the
  first key stays the result until a later key is strictly greater (strictly smaller).
\<close>

fun py_max :: "(nat \<Rightarrow> real) \<Rightarrow> nat \<Rightarrow> nat list \<Rightarrow> nat" where
  "py_max key best [] = best"
| "py_max key best (x # xs) = py_max key (if key best < key x then x else best) xs"

fun py_min :: "(nat \<Rightarrow> real) \<Rightarrow> nat \<Rightarrow> nat list \<Rightarrow> nat" where
  "py_min key best [] = best"
| "py_min key best (x # xs) = py_min key (if key x < key best then x else best) xs"

definition load_pipeline_multi_gpu ::
  "nat list \<Rightarrow> string \<Rightarrow> string \<Rightarrow> bool \<Rightarrow> string \<times> pretrained_args" where
  "load_pipeline_multi_gpu total_memory model_path version load_muq_mulan =
     (let num_gpus = length total_memory in
      if num_gpus < 2 then
        (''single'',
         \<lparr>a_model_path = model_path, a_device = CUDA, a_codec_device = CPU,
          a_version = version, a_load_muq_mulan = load_muq_mulan, a_lazy_load = Some True\<rparr>)
      else
        let gpu_memories = get_gpu_memory total_memory;
            mula_gpu = py_max gpu_memories 0 [1..<num_gpus];
            codec_gpu = py_min gpu_memories 0 [1..<num_gpus]
        in (''multi'',
            \<lparr>a_model_path = model_path, a_device = CUDA_index mula_gpu,
             a_codec_device = CUDA_index codec_gpu, a_version = version,
             a_load_muq_mulan = load_muq_mulan, a_lazy_load = None\<rparr>))"

text \<open>The placement decision: the mode and where each sub-component goes.\<close>

definition placement :: "string \<times> pretrained_args \<Rightarrow> string \<times> device \<times> device \<times> bool option" where
  "placement r = (fst r, a_device (snd r), a_codec_device (snd r), a_lazy_load (snd r))"

section \<open>Reference audio and the conditioning window (\_run\_pipeline, lines 256--300)\<close>

text \<open>
  The file system and \<open>torchaudio.info\<close> are parameters: \<open>exists\<close> answers
  \<open>os.path.exists\<close>, and \<open>info p\<close> is the metadata of \<open>p\<close>, or \<open>None\<close> when
  \<open>torchaudio.info\<close> raises.  Seconds are real numbers (the source computes in floats).
\<close>

record audio_info =
  num_frames :: int
  sample_rate :: int

definition os_path_join :: "string \<Rightarrow> string \<Rightarrow> string" where
  "os_path_join a b =
     (if b \<noteq> [] \<and> hd b = CHR ''/'' then b
      else if a = [] \<or> last a = CHR ''/'' then a @ b
      else a @ ''/'' @ b)"

definition ref_audio_exts :: "string list" where
  "ref_audio_exts = [''.mp3'', ''.wav'', ''.flac'', ''.ogg'']"

text \<open>
  Lines 269--281: the window for a reference file whose metadata read gave \<open>r\<close>.  Any
  exception (the read itself, or the division by a zero sample rate) gives 10 seconds.
\<close>

definition muq_segment :: "real \<Rightarrow> audio_info option \<Rightarrow> real" where
  "muq_segment style_influence r =
     (case r of
        None \<Rightarrow> 10
      | Some i \<Rightarrow>
          if sample_rate i = 0 then 10
          else
            let audio_duration_sec = real_of_int (num_frames i) / real_of_int (sample_rate i);
                max_segment_sec = 10;
                m1 = (style_influence / 100) * max_segment_sec;
                m2 = min m1 audio_duration_sec
            in max 1 m2)"

text \<open>The loop over the extensions: the first candidate that exists wins.\<close>

fun first_candidate :: "(string \<Rightarrow> bool) \<Rightarrow> string \<Rightarrow> string \<Rightarrow> string list \<Rightarrow> string option" where
  "first_candidate exists ref_audio_dir rid [] = None"
| "first_candidate exists ref_audio_dir rid (ext # exts) =
     (let candidate = os_path_join ref_audio_dir (rid @ ext) in
      if exists candidate then Some candidate
      else first_candidate exists ref_audio_dir rid exts)"

definition resolve_ref_audio ::
  "(string \<Rightarrow> bool) \<Rightarrow> (string \<Rightarrow> audio_info option) \<Rightarrow> string \<Rightarrow> GenerationRequest
     \<Rightarrow> string option \<times> real" where
  "resolve_ref_audio exists info cwd request =
     (case r_ref_audio_id request of
        None \<Rightarrow> (None, 60)
      | Some rid \<Rightarrow>
          if rid = [] then (None, 60)
          else
            let ref_audio_dir = os_path_join (os_path_join cwd ''backend'') ''ref_audio'' in
            (case first_candidate exists ref_audio_dir rid ref_audio_exts of
               None \<Rightarrow> (None, 60)
             | Some ref_audio_path \<Rightarrow>
                 (Some ref_audio_path,
                  muq_segment (r_style_influence request) (info ref_audio_path))))"

text \<open>
  The entries of \<open>pipeline_inputs\<close> that concern the reference audio (lines 290--300):
  the path, the window and the optional start.  Without a path none of them is passed.
\<close>

record ref_inputs =
  ref_audio :: string
  muq_segment_sec :: real
  ref_audio_start_sec :: "real option"

definition ref_pipeline_inputs ::
  "(string \<Rightarrow> bool) \<Rightarrow> (string \<Rightarrow> audio_info option) \<Rightarrow> string \<Rightarrow> GenerationRequest
     \<Rightarrow> ref_inputs option" where
  "ref_pipeline_inputs exists info cwd request =
     (case resolve_ref_audio exists info cwd request of
        (None, _) \<Rightarrow> None
      | (Some p, w) \<Rightarrow>
          Some \<lparr>ref_audio = p, muq_segment_sec = w,
                ref_audio_start_sec = r_ref_audio_start_sec request\<rparr>)"

text \<open>
  The window in the spec's words: the influence percentage scaled against the fixed
  10-second reference window, clamped to the duration of the audio and to a floor of one
  second (the floor is applied last).
\<close>

definition spec_window :: "real \<Rightarrow> real \<Rightarrow> real" where
  "spec_window p d =
     (let scaled = p / 100 * 10 in
      if d < 1 then (if scaled < 1 \<or> d < scaled then 1 else scaled)
      else if d < scaled then d
      else if scaled < 1 then 1
      else scaled)"

text \<open>
  The scenario of the spec: a request with a reference-audio id and
  \<open>style_influence = 50\<close>; the other fields have the defaults of the model class.
\<close>

definition scenario_request :: GenerationRequest where
  "scenario_request =
     \<lparr>r_prompt = ''rain'', r_lyrics = None, r_duration_ms = 30000, r_temperature = 1,
      r_cfg_scale = 3 / 2, r_topk = 50, r_tags = None, r_seed = None, r_llm_model = None,
      r_parent_job_id = None, r_ref_audio_id = Some ''clip'', r_style_influence = 50,
      r_ref_audio_start_sec = None\<rparr>"

section \<open>MusicService: the scheduler (music\_service.py, lines 23--47 and 115--405)\<close>

text \<open>
  Exceptions that reach the handlers of \<open>generate_task\<close>: \<open>NoResultFound\<close> is what
  \<open>.one()\<close> raises on a missing row, anything else carries its message (\<open>str(e)\<close>).
\<close>

datatype exn = NoResultFound | OtherError string

fun str_exn :: "exn \<Rightarrow> string" where
  "str_exn NoResultFound = ''No row was found when one was required''"
| "str_exn (OtherError m) = m"

text \<open>How a call of \<open>generate_task\<close> ends: it returns, or an exception leaves it.\<close>

datatype outcome = Returned | Raised exn

text \<open>
  The locals of a call that are alive across \<open>await loop.run_in_executor(...)\<close>:
  \<open>abort_event\<close> is the address of the \<open>threading.Event\<close>.
\<close>

record frame =
  f_request :: GenerationRequest
  f_abort_event :: nat
  f_auto_title :: string
  f_seed_to_use :: int

text \<open>
  A call of \<open>generate_task\<close> is a coroutine.  It gives up control at two places only:
  waiting in \<open>async with self.gpu_lock\<close> (\<open>AtLock\<close>) and waiting for the executor that
  runs the pipeline (\<open>InExecutor\<close>).  On the event loop the code between two such places
  runs without interruption.
\<close>

datatype task = AtLock GenerationRequest | InExecutor frame | Finished outcome

text \<open>
  The state of the service and of what it works on.
  \<^item> \<open>job_queue\<close>, \<open>active_jobs\<close>: the fields of \<open>MusicService\<close>; a value of \<open>active_jobs\<close>
    is the address of an event in \<open>tokens\<close>.
  \<^item> \<open>locked\<close>, \<open>waiters\<close>: the \<open>asyncio.Lock\<close> \<open>gpu_lock\<close>: whether it is held, and the
    calls waiting in \<open>acquire\<close>, first come first.  As asyncio documents it, \<open>acquire\<close>
    returns at once when the lock is free and nobody waits, otherwise the caller waits
    in line, and a release wakes the first in line.
  \<^item> \<open>tokens\<close>: the \<open>threading.Event\<close> objects created so far, by address: set or not.
  \<^item> \<open>db\<close>: the \<open>Job\<close> rows of the store, by id.
  \<^item> \<open>published\<close>: the calls of \<open>event_manager.publish\<close> so far, in order.
  \<^item> \<open>tasks\<close>: the calls of \<open>generate_task\<close>, by job id.
  \<^item> \<open>arrived\<close>, \<open>admitted\<close>: history, kept to state the order of events: the job ids in
    the order they were appended to \<open>job_queue\<close>, and in the order they got the lock.
  The fields \<open>pipeline\<close>, \<open>is_loading\<close> and \<open>gpu_mode\<close> belong to loading the model and
  are not part of this state.  \<open>shutdown_all\<close>, which sets the tokens of the active jobs
  and changes nothing else, is not among the steps below.
\<close>

record system =
  job_queue :: "string list"
  active_jobs :: "string \<rightharpoonup> nat"
  locked :: bool
  waiters :: "string list"
  tokens :: "bool list"
  db :: "string \<rightharpoonup> Job"
  published :: "event list"
  tasks :: "string \<rightharpoonup> task"
  arrived :: "string list"
  admitted :: "string list"

definition MusicService_new :: system where
  "MusicService_new =
     \<lparr>job_queue = [], active_jobs = Map.empty, locked = False, waiters = [], tokens = [],
      db = Map.empty, published = [], tasks = Map.empty, arrived = [], admitted = []\<rparr>"

definition emit :: "string \<Rightarrow> (string \<times> jval) list \<Rightarrow> system \<Rightarrow> system" where
  "emit event_type data s = s\<lparr>published := published s @ [(event_type, data)]\<rparr>"

fun index_from :: "nat \<Rightarrow> string \<Rightarrow> string list \<Rightarrow> nat option" where
  "index_from n x [] = None"
| "index_from n x (y # ys) = (if x = y then Some n else index_from (Suc n) x ys)"

definition get_queue_position :: "string \<Rightarrow> system \<Rightarrow> nat" where
  "get_queue_position job_id s =
     (case index_from 0 job_id (job_queue s) of Some i \<Rightarrow> i + 1 | None \<Rightarrow> 0)"

definition queue_event :: "nat \<Rightarrow> nat \<times> string \<Rightarrow> event" where
  "queue_event queue_len p =
     (''job_queue'',
      [(''job_id'', JStr (snd p)), (''position'', JInt (int (fst p) + 1)), (''total'', JInt (int queue_len))])"

definition broadcast_queue_update :: "system \<Rightarrow> system" where
  "broadcast_queue_update s =
     s\<lparr>published := published s @
          map (queue_event (length (job_queue s))) (enumerate 0 (job_queue s))\<rparr>"

text \<open>Leaving \<open>async with self.gpu_lock\<close>: the lock is free again.\<close>

definition release :: "system \<Rightarrow> system" where
  "release s = s\<lparr>locked := False\<rparr>"

definition end_task :: "string \<Rightarrow> outcome \<Rightarrow> system \<Rightarrow> system" where
  "end_task job_id r s = s\<lparr>tasks := (tasks s)(job_id \<mapsto> Finished r)\<rparr>"

text \<open>
  What the surroundings decide when a call gets the lock: whether the store raises in
  the block that writes \<open>PROCESSING\<close> (lines 136--150), the title the LLM service gives
  (\<open>None\<close> when the title section raises, lines 171--192), and the seed that
  \<open>random.randint\<close> draws when the request has none.
\<close>

record admit_env =
  processing_fault :: bool
  llm_title :: "string option"
  random_seed :: int

text \<open>Lines 159--160: a new event, stored under the job id.\<close>

definition register_token :: "string \<Rightarrow> system \<Rightarrow> nat \<times> system" where
  "register_token job_id s =
     (let abort_event = length (tokens s) in
      (abort_event,
       s\<lparr>tokens := tokens s @ [False], active_jobs := (active_jobs s)(job_id \<mapsto> abort_event)\<rparr>))"

text \<open>
  Lines 128--336, from the lock being held to the wait for the executor.  The two early
  returns (the row is missing, the store raises) leave the \<open>async with\<close>.  A failure
  of the title section is caught there (the title is then the placeholder); the other
  statements between the registration and the wait are taken not to raise.
\<close>

definition admitted_block :: "string \<Rightarrow> GenerationRequest \<Rightarrow> admit_env \<Rightarrow> system \<Rightarrow> system" where
  "admitted_block job_id request env s0 =
     (let s1 = s0\<lparr>admitted := admitted s0 @ [job_id]\<rparr>;
          s2 = (if job_id \<in> set (job_queue s1)
                then broadcast_queue_update (s1\<lparr>job_queue := remove1 job_id (job_queue s1)\<rparr>)
                else s1)
      in if processing_fault env then end_task job_id Returned (release s2)
         else
           (case db s2 job_id of
              None \<Rightarrow> end_task job_id Returned (release s2)
            | Some job \<Rightarrow>
                let s3 = s2\<lparr>db := (db s2)(job_id \<mapsto> job\<lparr>status := PROCESSING\<rparr>)\<rparr>;
                    (abort_event, s4) = register_token job_id s3;
                    auto_title = (case llm_title env of None \<Rightarrow> ''Untitled Track'' | Some t \<Rightarrow> t);
                    seed_to_use = (case r_seed request of None \<Rightarrow> random_seed env | Some sd \<Rightarrow> sd);
                    s5 = emit ''job_update'' [(''job_id'', JStr job_id), (''status'', JStr ''processing'')] s4;
                    s6 = emit ''job_progress''
                           [(''job_id'', JStr job_id), (''progress'', JInt 0),
                            (''msg'', JStr ''Starting generation pipeline...'')] s5
                in s6\<lparr>tasks := (tasks s6)(job_id \<mapsto>
                          InExecutor \<lparr>f_request = request, f_abort_event = abort_event,
                                      f_auto_title = auto_title, f_seed_to_use = seed_to_use\<rparr>)\<rparr>))"

text \<open>
  Lines 117--127, the start of a call: the job joins the queue, its position is
  published, and the lock is taken at once or waited for.
\<close>

definition submit :: "string \<Rightarrow> GenerationRequest \<Rightarrow> admit_env \<Rightarrow> system \<Rightarrow> system" where
  "submit job_id request env s0 =
     (let s1 = s0\<lparr>job_queue := job_queue s0 @ [job_id], arrived := arrived s0 @ [job_id]\<rparr>;
          queue_pos = get_queue_position job_id s1;
          s2 = emit ''job_queued''
                 [(''job_id'', JStr job_id), (''position'', JInt (int queue_pos)),
                  (''total'', JInt (int (length (job_queue s1))))] s1;
          s3 = broadcast_queue_update s2
      in if \<not> locked s3 \<and> waiters s3 = []
         then admitted_block job_id request env (s3\<lparr>locked := True\<rparr>)
         else s3\<lparr>waiters := waiters s3 @ [job_id], tasks := (tasks s3)(job_id \<mapsto> AtLock request)\<rparr>)"

text \<open>A waiting call goes on: the lock is free and the call is the first in line.\<close>

definition resume :: "string \<Rightarrow> admit_env \<Rightarrow> system \<Rightarrow> system" where
  "resume job_id env s =
     (case tasks s job_id of
        Some (AtLock request) \<Rightarrow>
          if \<not> locked s \<and> waiters s \<noteq> [] \<and> hd (waiters s) = job_id
          then admitted_block job_id request env (s\<lparr>waiters := tl (waiters s), locked := True\<rparr>)
          else s
      | _ \<Rightarrow> s)"

text \<open>
  What the surroundings decide when the executor is done: the pipeline returned or
  raised, and whether the store raises in the block that writes \<open>COMPLETED\<close> (lines
  339--354; the exception) or in the block that writes \<open>FAILED\<close> (lines 362--367).  A
  block of the store that raises writes nothing.
\<close>

datatype pipeline_result = PipelineReturned | PipelineRaised exn

record finish_env =
  completed_fault :: "exn option"
  failed_fault :: "exn option"

text \<open>How control leaves a block: at its end, by \<open>return\<close>, or by an exception.\<close>

datatype flow = Normal | Return | Raise exn

text \<open>Lines 336--358: the rest of the \<open>try\<close> body.\<close>

definition try_body :: "string \<Rightarrow> frame \<Rightarrow> pipeline_result \<Rightarrow> finish_env \<Rightarrow> system \<Rightarrow> flow \<times> system" where
  "try_body job_id fr result env s =
     (case result of
        PipelineRaised e \<Rightarrow> (Raise e, s)
      | PipelineReturned \<Rightarrow>
          (case completed_fault env of
             Some e \<Rightarrow> (Raise e, s)
           | None \<Rightarrow>
               (case db s job_id of
                  None \<Rightarrow> (Return, s)
                | Some job \<Rightarrow>
                    let final_audio_path = ''/audio/song_'' @ job_id @ ''.mp3'';
                        final_title = f_auto_title fr;
                        s1 = s\<lparr>db := (db s)(job_id \<mapsto>
                               job\<lparr>status := COMPLETED, audio_path := Some final_audio_path,
                                   title := Some final_title, seed := Some (f_seed_to_use fr)\<rparr>)\<rparr>;
                        s2 = emit ''job_update''
                               [(''job_id'', JStr job_id), (''status'', JStr ''completed''),
                                (''audio_path'', JStr final_audio_path), (''title'', JStr final_title)] s1;
                        s3 = emit ''job_progress''
                               [(''job_id'', JStr job_id), (''progress'', JInt 100), (''msg'', JStr ''Done!'')] s2
                    in (Normal, s3))))"

text \<open>Lines 360--368: the handler.  An exception raised in it leaves the call.\<close>

definition except_handler :: "string \<Rightarrow> exn \<Rightarrow> finish_env \<Rightarrow> system \<Rightarrow> flow \<times> system" where
  "except_handler job_id e env s =
     (case failed_fault env of
        Some e' \<Rightarrow> (Raise e', s)
      | None \<Rightarrow>
          (case db s job_id of
             None \<Rightarrow> (Raise NoResultFound, s)
           | Some job \<Rightarrow>
               let s1 = s\<lparr>db := (db s)(job_id \<mapsto>
                          job\<lparr>status := FAILED, error_msg := Some (str_exn e)\<rparr>)\<rparr>;
                   s2 = emit ''job_update''
                          [(''job_id'', JStr job_id), (''status'', JStr ''failed''),
                           (''error'', JStr (str_exn e))] s1
               in (Normal, s2)))"

text \<open>
  Lines 370--385: the \<open>finally\<close> block.  The memory cleanup touches nothing of this
  state, and what it raises is swallowed.
\<close>

definition finally_block :: "string \<Rightarrow> system \<Rightarrow> system" where
  "finally_block job_id s =
     (if job_id \<in> dom (active_jobs s) then s\<lparr>active_jobs := (active_jobs s)(job_id := None)\<rparr> else s)"

definition generation_block :: "string \<Rightarrow> frame \<Rightarrow> pipeline_result \<Rightarrow> finish_env \<Rightarrow> system \<Rightarrow> system" where
  "generation_block job_id fr result env s =
     (let (fl1, s1) = try_body job_id fr result env s;
          (fl2, s2) = (case fl1 of Raise e \<Rightarrow> except_handler job_id e env s1 | _ \<Rightarrow> (fl1, s1));
          s3 = finally_block job_id s2;
          s4 = release s3
      in end_task job_id (case fl2 of Raise e \<Rightarrow> Raised e | _ \<Rightarrow> Returned) s4)"

definition pipeline_end :: "string \<Rightarrow> pipeline_result \<Rightarrow> finish_env \<Rightarrow> system \<Rightarrow> system" where
  "pipeline_end job_id result env s =
     (case tasks s job_id of
        Some (InExecutor fr) \<Rightarrow> generation_block job_id fr result env s
      | _ \<Rightarrow> s)"

text \<open>Lines 207--216: the progress callback, run on the loop while the pipeline works.\<close>

definition pipeline_callback :: "string \<Rightarrow> real \<Rightarrow> string \<Rightarrow> system \<Rightarrow> system" where
  "pipeline_callback job_id progress msg s =
     (case tasks s job_id of
        Some (InExecutor fr) \<Rightarrow>
          emit ''job_progress''
            [(''job_id'', JStr job_id), (''progress'', JNum progress), (''msg'', JStr msg)] s
      | _ \<Rightarrow> s)"

text \<open>Lines 387--399.\<close>

definition cancel_job :: "string \<Rightarrow> system \<Rightarrow> bool \<times> system" where
  "cancel_job job_id s =
     (if job_id \<in> set (job_queue s)
      then (True, broadcast_queue_update (s\<lparr>job_queue := remove1 job_id (job_queue s)\<rparr>))
      else
        (case active_jobs s job_id of
           Some abort_event \<Rightarrow> (True, s\<lparr>tokens := (tokens s)[abort_event := True]\<rparr>)
         | None \<Rightarrow> (False, s)))"

text \<open>
  The store from outside the service: the API layer adds the row of a new job, with the
  default status \<open>QUEUED\<close>, before it starts \<open>generate_task\<close> for it, and a user may delete
  a row at any time.  Job ids are fresh (\<open>uuid4\<close>): a row is created, and a call started,
  once per id.
\<close>

definition create_job :: "string \<Rightarrow> Job \<Rightarrow> system \<Rightarrow> system" where
  "create_job job_id job s =
     (if db s job_id = None \<and> tasks s job_id = None
      then s\<lparr>db := (db s)(job_id \<mapsto> job\<lparr>status := QUEUED\<rparr>)\<rparr> else s)"

definition delete_job :: "string \<Rightarrow> system \<Rightarrow> system" where
  "delete_job job_id s = s\<lparr>db := (db s)(job_id := None)\<rparr>"

text \<open>
  The steps of the system: each is one uninterrupted piece of code on the event loop, or
  one change of the store from outside.  A step that cannot happen in a state (a call
  for an id that has one, a resume of a call that is not first in line) leaves the state
  as it is.
\<close>

datatype action =
  Create string Job
| Delete string
| Submit string GenerationRequest admit_env
| Resume string admit_env
| PipelineEnd string pipeline_result finish_env
| Progress string real string
| Cancel string

fun step :: "action \<Rightarrow> system \<Rightarrow> system" where
  "step (Create j job) s = create_job j job s"
| "step (Delete j) s = delete_job j s"
| "step (Submit j request env) s = (if tasks s j = None then submit j request env s else s)"
| "step (Resume j env) s = resume j env s"
| "step (PipelineEnd j result env) s = pipeline_end j result env s"
| "step (Progress j p msg) s = pipeline_callback j p msg s"
| "step (Cancel j) s = snd (cancel_job j s)"

definition run :: "action list \<Rightarrow> system" where
  "run acts = foldl (\<lambda>s a. step a s) MusicService_new acts"


text \<open>
  Words for the statements: a call is running when it waits for the executor (it has
  written \<open>PROCESSING\<close> and holds the lock), it is live from its start to its end, and a
  job is processing when its row in the store says so.
\<close>

definition running :: "system \<Rightarrow> string \<Rightarrow> bool" where
  "running s j = (case tasks s j of Some (InExecutor fr) \<Rightarrow> True | _ \<Rightarrow> False)"

definition live :: "system \<Rightarrow> string \<Rightarrow> bool" where
  "live s j = (case tasks s j of Some (AtLock r) \<Rightarrow> True | Some (InExecutor fr) \<Rightarrow> True | _ \<Rightarrow> False)"

definition ended :: "system \<Rightarrow> string \<Rightarrow> bool" where
  "ended s j = (case tasks s j of Some (Finished r) \<Rightarrow> True | _ \<Rightarrow> False)"

definition processing :: "system \<Rightarrow> string \<Rightarrow> bool" where
  "processing s j = (case db s j of Some job \<Rightarrow> status job = PROCESSING | None \<Rightarrow> False)"

definition gate_inv :: "system \<Rightarrow> bool" where
  "gate_inv s =
     ((\<forall>j k. running s j \<and> running s k \<longrightarrow> j = k) \<and>
      (locked s \<longleftrightarrow> (\<exists>j. running s j)) \<and>
      (\<forall>j. active_jobs s j \<noteq> None \<longrightarrow> running s j) \<and>
      (\<forall>j. processing s j \<longrightarrow> running s j \<or> (\<exists>e. tasks s j = Some (Finished (Raised e)))))"

text \<open>
  The order of the lock: the jobs in their order of arrival are those that got the lock,
  in that order, followed by those that wait, in their order; a job arrives once; and
  the queue that is shown lists waiting jobs in the order they wait in.
\<close>

definition fifo_inv :: "system \<Rightarrow> bool" where
  "fifo_inv s =
     (arrived s = admitted s @ waiters s \<and> distinct (arrived s) \<and>
      (\<forall>j \<in> set (arrived s). tasks s j \<noteq> None) \<and>
      (\<forall>j \<in> set (waiters s). \<exists>r. tasks s j = Some (AtLock r)) \<and>
      subseq (job_queue s) (waiters s))"

text \<open>Data for the examples: a row, and surroundings with and without faults.\<close>

definition scenario_job :: Job where
  "scenario_job =
     \<lparr>status = QUEUED, title = None, prompt = ''rain'', lyrics = None, tags = None, seed = None,
      audio_path = None, duration_ms = 30000, error_msg = None\<rparr>"

definition no_fault :: admit_env where
  "no_fault = \<lparr>processing_fault = False, llm_title = Some ''Rain'', random_seed = 7\<rparr>"

definition store_ok :: finish_env where
  "store_ok = \<lparr>completed_fault = None, failed_fault = None\<rparr>"

definition store_down :: finish_env where
  "store_down = \<lparr>completed_fault = None, failed_fault = Some (OtherError ''database is locked'')\<rparr>"

definition stuck_trace :: "action list" where
  "stuck_trace =
     [Create ''a'' scenario_job, Create ''b'' scenario_job,
      Submit ''a'' scenario_request no_fault, Submit ''b'' scenario_request no_fault,
      PipelineEnd ''a'' (PipelineRaised (OtherError ''out of memory'')) store_down,
      Resume ''b'' no_fault]"

text \<open>
  Runs for the examples.  In \<open>busy_trace\<close> job a is generating and job b waits.  In
  \<open>stuck_trace\<close> the pipeline of job a fails and the store raises while the handler
  writes \<open>FAILED\<close>; then job b gets the lock.  In \<open>cancel_trace\<close> job a is generating,
  jobs b and c wait, and b is cancelled.  In \<open>deleted_trace\<close> the row of job a is
  deleted while a is generating.  In \<open>registered_state\<close> the id a has a token that is
  set.
\<close>

definition busy_trace :: "action list" where
  "busy_trace =
     [Create ''a'' scenario_job, Create ''b'' scenario_job,
      Submit ''a'' scenario_request no_fault, Submit ''b'' scenario_request no_fault]"

definition cancel_trace :: "action list" where
  "cancel_trace =
     [Create ''a'' scenario_job, Create ''b'' scenario_job, Create ''c'' scenario_job,
      Submit ''a'' scenario_request no_fault, Submit ''b'' scenario_request no_fault,
      Submit ''c'' scenario_request no_fault, Cancel ''b'']"

definition deleted_trace :: "action list" where
  "deleted_trace =
     [Create ''a'' scenario_job, Submit ''a'' scenario_request no_fault, Delete ''a'']"

definition registered_state :: system where
  "registered_state =
     MusicService_new\<lparr>active_jobs := [''a'' \<mapsto> 0], tokens := [True],
       db := [''a'' \<mapsto> scenario_job], locked := True\<rparr>"

text \<open>
  The place of a job in the line of the lock, counted like the position in the queue (1
  for the first, 0 for a job that does not wait), and the runs in which no call of
  \<open>cancel_job\<close> finds its job in the queue.
\<close>

definition place_in_line :: "string \<Rightarrow> system \<Rightarrow> nat" where
  "place_in_line job_id s =
     (case index_from 0 job_id (waiters s) of Some i \<Rightarrow> i + 1 | None \<Rightarrow> 0)"

definition no_queued_cancel :: "action list \<Rightarrow> bool" where
  "no_queued_cancel acts =
     (\<forall>n < length acts.
        case acts ! n of
          Cancel j \<Rightarrow> j \<notin> set (job_queue (run (take n acts)))
        | _ \<Rightarrow> True)"

section \<open>Theorems about the event manager\<close>

lemma full_unbounded: "maxsize q \<le> 0 \<Longrightarrow> \<not> full q"
  by (simp add: full_def)

lemma offer_unbounded: "maxsize q \<le> 0 \<Longrightarrow> offer msg q = q\<lparr>items := items q @ [msg]\<rparr>"
  by (simp add: offer_def put_nowait_def full_def)

lemma offer_maxsize: "maxsize (offer msg q) = maxsize q"
  by (simp add: offer_def put_nowait_def)

lemma remove_qid_subset: "set (remove_qid i qs) \<subseteq> set qs"
  by (induction qs) auto

lemma em_step_unbounded:
  assumes "\<forall>q \<in> set (subscribers em). maxsize q = 0"
  shows "\<forall>q \<in> set (subscribers (em_step a em)). maxsize q = 0"
proof (cases a)
  case (Subscribe i)
  with assms show ?thesis by (auto simp: subscribe_def Queue_new_def Let_def)
next
  case (Unsubscribe i)
  with assms remove_qid_subset [of i "subscribers em"] show ?thesis
    by (auto simp: unsubscribe_def)
next
  case (Publish t d)
  with assms show ?thesis by (auto simp: publish_def offer_maxsize)
next
  case Shutdown
  with assms show ?thesis by (auto simp: shutdown_def offer_maxsize)
next
  case (Get i)
  with assms show ?thesis by (auto simp: consume_def)
qed

lemma em_run_unbounded: "\<forall>q \<in> set (subscribers (em_run ops)). maxsize q = 0"
proof (induction ops rule: rev_induct)
  case Nil
  show ?case by (simp add: em_run_def EventManager_new_def)
next
  case (snoc a ops)
  have "em_run (ops @ [a]) = em_step a (em_run ops)" by (simp add: em_run_def)
  with em_step_unbounded [OF snoc] show ?case by simp
qed

text \<open>
  Claim C6, as amended.  \<open>subscribe\<close> creates an unbounded channel (\<open>asyncio.Queue()\<close>
  without a \<open>maxsize\<close>: it can never fill) and appends it to the subscribers.  \<open>publish\<close>
  offers the message to every registered channel, in place: a channel that is full is
  left as it was, every channel that is not full gets the message at the end of its
  buffer, whatever the other channels are.
\<close>

theorem publish_fan_out:
  "length (subscribers (publish t d em)) = length (subscribers em) \<and>
   (\<forall>k < length (subscribers em).
      (full (subscribers em ! k) \<longrightarrow> subscribers (publish t d em) ! k = subscribers em ! k) \<and>
      (\<not> full (subscribers em ! k) \<longrightarrow>
         subscribers (publish t d em) ! k =
           (subscribers em ! k)\<lparr>items := items (subscribers em ! k) @ [(t, d)]\<rparr>)) \<and>
   maxsize (fst (subscribe i em)) = 0 \<and> \<not> bounded_channel (fst (subscribe i em)) \<and>
   subscribers (snd (subscribe i em)) = subscribers em @ [fst (subscribe i em)]"
  by (simp add: publish_def offer_def put_nowait_def subscribe_def Queue_new_def
      bounded_channel_def full_def Let_def)

theorem publish_fan_out_witness:
  "let slow = \<lparr>qid = 0, maxsize = 1, items = [(''job_queued'', [])]\<rparr>;
       fast = \<lparr>qid = 1, maxsize = 0, items = []\<rparr>;
       em = \<lparr>subscribers = [slow, fast]\<rparr>
   in full slow \<and> \<not> full fast \<and>
      subscribers (publish ''job_update'' [] em) =
        [slow, fast\<lparr>items := [(''job_update'', [])]\<rparr>]"
  using publish_fan_out [of "''job_update''" "[]"
      "\<lparr>subscribers = [\<lparr>qid = 0, maxsize = 1, items = [(''job_queued'', [])]\<rparr>,
                       \<lparr>qid = 1, maxsize = 0, items = []\<rparr>]\<rparr>" 0]
  by (simp add: full_def publish_def offer_def put_nowait_def)

text \<open>
  Claim C6 as stated says that \<open>subscribe\<close> creates a bounded channel.  The channel it
  creates has no bound: no number of buffered messages makes it full.
\<close>

theorem subscribe_bounded_counterexample:
  "\<not> bounded_channel (fst (subscribe 0 EventManager_new))"
  by (simp add: bounded_channel_def subscribe_def Queue_new_def full_def Let_def)

text \<open>
  Claim C10.  Whatever subscribe, unsubscribe, publish, shutdown and consumer reads came
  before, no registered channel is full, so the branch that drops a message is never
  taken: \<open>publish\<close> (and \<open>shutdown\<close>) appends its message to every channel registered at
  that moment.
\<close>

theorem unbounded_channels_never_drop:
  "(\<forall>q \<in> set (subscribers (em_run ops)). \<not> full q) \<and>
   subscribers (publish t d (em_run ops)) =
     map (\<lambda>q. q\<lparr>items := items q @ [(t, d)]\<rparr>) (subscribers (em_run ops)) \<and>
   subscribers (shutdown (em_run ops)) =
     map (\<lambda>q. q\<lparr>items := items q @ [(''shutdown'', [])]\<rparr>) (subscribers (em_run ops))"
  using em_run_unbounded [of ops]
  by (auto simp: publish_def shutdown_def offer_unbounded full_unbounded)

theorem unbounded_channels_never_drop_witness:
  "subscribers (publish ''job_update'' [] (em_run [Subscribe 0, Publish ''job_queued'' [], Subscribe 1])) =
     [\<lparr>qid = 0, maxsize = 0, items = [(''job_queued'', []), (''job_update'', [])]\<rparr>,
      \<lparr>qid = 1, maxsize = 0, items = [(''job_update'', [])]\<rparr>]"
  using unbounded_channels_never_drop [of "[Subscribe 0, Publish ''job_queued'' [], Subscribe 1]" "''job_update''" "[]"]
  by (simp add: em_run_def EventManager_new_def subscribe_def Queue_new_def publish_def offer_def
      put_nowait_def full_def Let_def)

section \<open>Theorems about device placement\<close>

lemma py_max_mem: "py_max key b xs \<in> insert b (set xs)"
  by (induction xs arbitrary: b) auto

lemma py_max_ge_best: "key b \<le> key (py_max key b xs)"
proof (induction xs arbitrary: b)
  case Nil
  show ?case by simp
next
  case (Cons x xs)
  show ?case
  proof (cases "key b < key x")
    case True
    with Cons [of x] show ?thesis by simp
  next
    case False
    with Cons [of b] show ?thesis by simp
  qed
qed

lemma py_max_ge: "x \<in> set xs \<Longrightarrow> key x \<le> key (py_max key b xs)"
proof (induction xs arbitrary: b)
  case Nil
  then show ?case by simp
next
  case (Cons y ys)
  let ?b = "if key b < key y then y else b"
  have step: "py_max key b (y # ys) = py_max key ?b ys" by simp
  show ?case
  proof (cases "x = y")
    case True
    have "key y \<le> key ?b" by simp
    also have "\<dots> \<le> key (py_max key ?b ys)" by (rule py_max_ge_best)
    finally show ?thesis using True step by simp
  next
    case False
    with Cons.prems have "x \<in> set ys" by simp
    from Cons.IH [OF this] show ?thesis using step by simp
  qed
qed

lemma py_min_mem: "py_min key b xs \<in> insert b (set xs)"
  by (induction xs arbitrary: b) auto

lemma py_min_le_best: "key (py_min key b xs) \<le> key b"
proof (induction xs arbitrary: b)
  case Nil
  show ?case by simp
next
  case (Cons x xs)
  show ?case
  proof (cases "key x < key b")
    case True
    with Cons [of x] show ?thesis by simp
  next
    case False
    with Cons [of b] show ?thesis by simp
  qed
qed

lemma py_min_le: "x \<in> set xs \<Longrightarrow> key (py_min key b xs) \<le> key x"
proof (induction xs arbitrary: b)
  case Nil
  then show ?case by simp
next
  case (Cons y ys)
  let ?b = "if key y < key b then y else b"
  have step: "py_min key b (y # ys) = py_min key ?b ys" by simp
  show ?case
  proof (cases "x = y")
    case True
    have "key (py_min key ?b ys) \<le> key ?b" by (rule py_min_le_best)
    also have "\<dots> \<le> key y" by simp
    finally show ?thesis using True step by simp
  next
    case False
    with Cons.prems have "x \<in> set ys" by simp
    from Cons.IH [OF this] show ?thesis using step by simp
  qed
qed

lemma upt_split: "i < n \<Longrightarrow> i = 0 \<or> i \<in> set [1..<n]"
  by auto

text \<open>
  Claim C9.  With fewer than two accelerators the mode is single, the primary component
  goes to the default accelerator and the codec stays on the CPU with lazy loading.  With
  two or more, the primary component goes to an accelerator whose memory no other exceeds
  and the codec to one whose memory is exceeded by no other's.  The decision depends on
  the list of capacities only, not on the other arguments.
\<close>

theorem placement_policy:
  "(length tm < 2 \<longrightarrow>
      placement (load_pipeline_multi_gpu tm mp v l) = (''single'', CUDA, CPU, Some True)) \<and>
   (2 \<le> length tm \<longrightarrow>
      (\<exists>m c. m < length tm \<and> c < length tm \<and>
         placement (load_pipeline_multi_gpu tm mp v l) = (''multi'', CUDA_index m, CUDA_index c, None) \<and>
         (\<forall>i < length tm. get_gpu_memory tm i \<le> get_gpu_memory tm m \<and>
                           get_gpu_memory tm c \<le> get_gpu_memory tm i))) \<and>
   placement (load_pipeline_multi_gpu tm mp v l) = placement (load_pipeline_multi_gpu tm mp' v' l')"
proof (intro conjI impI)
  assume "length tm < 2"
  then show "placement (load_pipeline_multi_gpu tm mp v l) = (''single'', CUDA, CPU, Some True)"
    by (simp add: placement_def load_pipeline_multi_gpu_def)
next
  assume n: "2 \<le> length tm"
  let ?key = "get_gpu_memory tm"
  let ?m = "py_max ?key 0 [1..<length tm]"
  let ?c = "py_min ?key 0 [1..<length tm]"
  have m: "?m < length tm" using py_max_mem [of ?key 0 "[1..<length tm]"] n by auto
  have c: "?c < length tm" using py_min_mem [of ?key 0 "[1..<length tm]"] n by auto
  have p: "placement (load_pipeline_multi_gpu tm mp v l) = (''multi'', CUDA_index ?m, CUDA_index ?c, None)"
    using n by (simp add: placement_def load_pipeline_multi_gpu_def Let_def)
  have b: "\<forall>i < length tm. ?key i \<le> ?key ?m \<and> ?key ?c \<le> ?key i"
  proof (intro allI impI)
    fix i assume "i < length tm"
    then consider "i = 0" | "i \<in> set [1..<length tm]" using upt_split by blast
    then show "?key i \<le> ?key ?m \<and> ?key ?c \<le> ?key i"
    proof cases
      case 1
      then show ?thesis using py_max_ge_best [of ?key 0] py_min_le_best [of ?key] by simp
    next
      case 2
      then show ?thesis using py_max_ge [of i _ ?key 0] py_min_le [of i _ ?key 0] by simp
    qed
  qed
  from m c p b
  show "\<exists>m c. m < length tm \<and> c < length tm \<and>
         placement (load_pipeline_multi_gpu tm mp v l) = (''multi'', CUDA_index m, CUDA_index c, None) \<and>
         (\<forall>i < length tm. get_gpu_memory tm i \<le> get_gpu_memory tm m \<and>
                           get_gpu_memory tm c \<le> get_gpu_memory tm i)"
    by blast
next
  show "placement (load_pipeline_multi_gpu tm mp v l) = placement (load_pipeline_multi_gpu tm mp' v' l')"
    by (simp add: placement_def load_pipeline_multi_gpu_def Let_def)
qed

theorem placement_policy_witness:
  "placement (load_pipeline_multi_gpu [8589934592] ''ckpt'' ''3B'' True) = (''single'', CUDA, CPU, Some True) \<and>
   placement (load_pipeline_multi_gpu [8589934592, 25769803776, 12884901888] ''ckpt'' ''3B'' True) =
     (''multi'', CUDA_index 1, CUDA_index 0, None) \<and>
   get_gpu_memory [8589934592, 25769803776, 12884901888] 1 = 24 \<and>
   get_gpu_memory [8589934592, 25769803776, 12884901888] 0 = 8"
  using placement_policy [of "[8589934592]" "''ckpt''" "''3B''" True "''ckpt''" "''3B''" True]
    placement_policy [of "[8589934592, 25769803776, 12884901888]" "''ckpt''" "''3B''" True "''ckpt''" "''3B''" True]
  by (simp add: placement_def load_pipeline_multi_gpu_def Let_def get_gpu_memory_def upt_rec)

section \<open>Theorems about the conditioning window\<close>

lemma muq_segment_ok:
  "sample_rate i \<noteq> 0 \<Longrightarrow>
   muq_segment p (Some i) = max 1 (min (p / 100 * 10) (real_of_int (num_frames i) / real_of_int (sample_rate i)))"
  by (simp add: muq_segment_def Let_def)

lemma spec_window_clamp: "spec_window p d = max 1 (min (p / 100 * 10) d)"
  by (simp add: spec_window_def Let_def max_def min_def)

lemma muq_segment_failed:
  "r = None \<or> (\<exists>i. r = Some i \<and> sample_rate i = 0) \<Longrightarrow> muq_segment p r = 10"
  by (auto simp: muq_segment_def)

text \<open>
  Claim C8, as amended.  When a reference audio is supplied and found, the window passed
  to the pipeline depends on the read of its metadata.  If the read gives the duration
  \<open>d\<close>, the window is the influence percentage \<open>p\<close> scaled against the 10-second
  reference window, clamped to \<open>d\<close> and to the floor of one second: it is at least 1, at
  most \<open>d\<close> when \<open>d\<close> is at least 1, and equal to \<open>p / 10\<close> when that lies between 1 and
  \<open>d\<close>.  If the read fails (\<open>torchaudio.info\<close> raises, or the sample rate is zero), the
  window is the default of 10 seconds, whatever \<open>p\<close> and the clip are.  (Arithmetic on
  real numbers; the rounding of floats is not modelled.)
\<close>

theorem conditioning_window_cases:
  assumes "resolve_ref_audio exists info cwd request = (Some path, w)"
    and "p = r_style_influence request"
  shows "(\<forall>i d. info path = Some i \<and> sample_rate i \<noteq> 0 \<and>
             d = real_of_int (num_frames i) / real_of_int (sample_rate i) \<longrightarrow>
           w = spec_window p d \<and> 1 \<le> w \<and> (1 \<le> d \<longrightarrow> w \<le> d) \<and>
           (1 \<le> p / 10 \<and> p / 10 \<le> d \<longrightarrow> w = p / 10)) \<and>
         (info path = None \<or> (\<exists>i. info path = Some i \<and> sample_rate i = 0) \<longrightarrow> w = 10) \<and>
         ref_pipeline_inputs exists info cwd request =
           Some \<lparr>ref_audio = path, muq_segment_sec = w,
                 ref_audio_start_sec = r_ref_audio_start_sec request\<rparr>"
proof -
  from assms have m: "w = muq_segment p (info path)"
    by (auto simp: resolve_ref_audio_def Let_def split: option.splits if_splits)
  have ok: "w = spec_window p d \<and> 1 \<le> w \<and> (1 \<le> d \<longrightarrow> w \<le> d) \<and>
           (1 \<le> p / 10 \<and> p / 10 \<le> d \<longrightarrow> w = p / 10)"
    if "info path = Some i" "sample_rate i \<noteq> 0"
      "d = real_of_int (num_frames i) / real_of_int (sample_rate i)" for i d
  proof -
    from m that have w: "w = spec_window p d"
      by (simp add: muq_segment_ok spec_window_clamp)
    show ?thesis unfolding w spec_window_clamp by (auto simp: max_def min_def)
  qed
  have bad: "w = 10" if "info path = None \<or> (\<exists>i. info path = Some i \<and> sample_rate i = 0)"
    unfolding m using that by (rule muq_segment_failed)
  have inp: "ref_pipeline_inputs exists info cwd request =
           Some \<lparr>ref_audio = path, muq_segment_sec = w,
                 ref_audio_start_sec = r_ref_audio_start_sec request\<rparr>"
    using assms(1) by (simp add: ref_pipeline_inputs_def)
  from ok bad inp show ?thesis by (intro conjI allI impI) auto
qed

text \<open>
  The scenario: \<open>p = 50\<close> and a clip of 20 seconds give a window of 5 seconds; the same
  clip with a zero sample rate in its metadata gives 10 seconds.
\<close>

theorem conditioning_window_cases_witness:
  "resolve_ref_audio (\<lambda>p. p = ''/srv/backend/ref_audio/clip.wav'')
     (\<lambda>p. Some \<lparr>num_frames = 882000, sample_rate = 44100\<rparr>) ''/srv'' scenario_request =
     (Some ''/srv/backend/ref_audio/clip.wav'', 5) \<and>
   (5 :: real) = spec_window 50 20 \<and> (1 :: real) \<le> 5 \<and> (5 :: real) \<le> 20 \<and>
   resolve_ref_audio (\<lambda>p. p = ''/srv/backend/ref_audio/clip.wav'')
     (\<lambda>p. Some \<lparr>num_frames = 882000, sample_rate = 0\<rparr>) ''/srv'' scenario_request =
     (Some ''/srv/backend/ref_audio/clip.wav'', 10)"
proof -
  let ?exists = "\<lambda>p. p = ''/srv/backend/ref_audio/clip.wav''"
  let ?info = "\<lambda>p :: string. Some \<lparr>num_frames = 882000, sample_rate = 44100\<rparr>"
  let ?bad = "\<lambda>p :: string. Some \<lparr>num_frames = 882000, sample_rate = 0\<rparr>"
  have r: "resolve_ref_audio ?exists ?info ''/srv'' scenario_request =
      (Some ''/srv/backend/ref_audio/clip.wav'', 5)"
    by (simp add: resolve_ref_audio_def scenario_request_def os_path_join_def ref_audio_exts_def
        muq_segment_def Let_def)
  have rb: "resolve_ref_audio ?exists ?bad ''/srv'' scenario_request =
      (Some ''/srv/backend/ref_audio/clip.wav'', 10)"
    by (simp add: resolve_ref_audio_def scenario_request_def os_path_join_def ref_audio_exts_def
        muq_segment_def Let_def)
  have p: "(50 :: real) = r_style_influence scenario_request" by (simp add: scenario_request_def)
  note t = conditioning_window_cases [OF r p]
  from t [THEN conjunct1, rule_format, of "\<lparr>num_frames = 882000, sample_rate = 44100\<rparr>" 20]
  have "(5 :: real) = spec_window 50 20 \<and> (1 :: real) \<le> 5 \<and> (5 :: real) \<le> 20" by simp
  then show ?thesis using r rb by simp
qed

text \<open>
  Claim C8 as stated fails: when the metadata of the clip cannot be read, \<open>p = 50\<close> gives
  a window of 10 seconds, where the claim says 5 for a clip of 20 seconds (and 4 for a
  clip of 4 seconds, which 10 exceeds).
\<close>

theorem failed_read_window:
  "resolve_ref_audio (\<lambda>p. p = ''/srv/backend/ref_audio/clip.wav'') (\<lambda>p. None) ''/srv''
     scenario_request = (Some ''/srv/backend/ref_audio/clip.wav'', 10) \<and>
   spec_window (r_style_influence scenario_request) 20 = 5 \<and>
   spec_window (r_style_influence scenario_request) 4 = 4"
  by (simp add: resolve_ref_audio_def scenario_request_def os_path_join_def ref_audio_exts_def
      muq_segment_def spec_window_def Let_def)

section \<open>Theorems about the scheduler\<close>

subsection \<open>What each block changes\<close>

lemma broadcast_fields [simp]:
  "job_queue (broadcast_queue_update s) = job_queue s"
  "active_jobs (broadcast_queue_update s) = active_jobs s"
  "locked (broadcast_queue_update s) = locked s"
  "waiters (broadcast_queue_update s) = waiters s"
  "tokens (broadcast_queue_update s) = tokens s"
  "db (broadcast_queue_update s) = db s"
  "tasks (broadcast_queue_update s) = tasks s"
  "arrived (broadcast_queue_update s) = arrived s"
  "admitted (broadcast_queue_update s) = admitted s"
  by (simp_all add: broadcast_queue_update_def)

lemma emit_fields [simp]:
  "job_queue (emit t d s) = job_queue s"
  "active_jobs (emit t d s) = active_jobs s"
  "locked (emit t d s) = locked s"
  "waiters (emit t d s) = waiters s"
  "tokens (emit t d s) = tokens s"
  "db (emit t d s) = db s"
  "tasks (emit t d s) = tasks s"
  "arrived (emit t d s) = arrived s"
  "admitted (emit t d s) = admitted s"
  by (simp_all add: emit_def)

lemma admitted_block_order:
  "job_queue (admitted_block j r e s) = remove1 j (job_queue s)"
  "waiters (admitted_block j r e s) = waiters s"
  "arrived (admitted_block j r e s) = arrived s"
  "admitted (admitted_block j r e s) = admitted s @ [j]"
  by (auto simp: admitted_block_def Let_def end_task_def release_def register_token_def
      remove1_idem split: option.splits)

lemma admitted_block_cases:
  "(tasks (admitted_block j r e s) = (tasks s)(j \<mapsto> Finished Returned) \<and>
    \<not> locked (admitted_block j r e s) \<and>
    active_jobs (admitted_block j r e s) = active_jobs s \<and>
    tokens (admitted_block j r e s) = tokens s \<and>
    db (admitted_block j r e s) = db s) \<or>
   (\<exists>fr job. db s j = Some job \<and> \<not> processing_fault e \<and>
      tasks (admitted_block j r e s) = (tasks s)(j \<mapsto> InExecutor fr) \<and>
      locked (admitted_block j r e s) = locked s \<and>
      active_jobs (admitted_block j r e s) = (active_jobs s)(j \<mapsto> length (tokens s)) \<and>
      tokens (admitted_block j r e s) = tokens s @ [False] \<and>
      db (admitted_block j r e s) = (db s)(j \<mapsto> job\<lparr>status := PROCESSING\<rparr>))"
  by (auto simp: admitted_block_def Let_def end_task_def release_def register_token_def
      split: option.splits)

lemma generation_block_order:
  "job_queue (generation_block j fr res e s) = job_queue s"
  "waiters (generation_block j fr res e s) = waiters s"
  "arrived (generation_block j fr res e s) = arrived s"
  "admitted (generation_block j fr res e s) = admitted s"
  "tokens (generation_block j fr res e s) = tokens s"
  by (auto simp: generation_block_def try_body_def except_handler_def finally_block_def
      Let_def end_task_def release_def
      split: option.splits pipeline_result.splits flow.splits prod.splits)

lemma generation_block_gate:
  "\<not> locked (generation_block j fr res e s)"
  "active_jobs (generation_block j fr res e s) = (active_jobs s)(j := None)"
  "\<exists>out. tasks (generation_block j fr res e s) = (tasks s)(j \<mapsto> Finished out) \<and>
     (processing (generation_block j fr res e s) j \<longrightarrow> (\<exists>x. out = Raised x))"
  "k \<noteq> j \<Longrightarrow> db (generation_block j fr res e s) k = db s k"
  by (auto simp: generation_block_def try_body_def except_handler_def finally_block_def
      Let_def end_task_def release_def processing_def
      split: option.splits pipeline_result.splits flow.splits prod.splits)

lemmas eval_defs = run_def create_job_def delete_job_def submit_def resume_def admitted_block_def
  pipeline_end_def generation_block_def try_body_def except_handler_def finally_block_def
  pipeline_callback_def cancel_job_def register_token_def end_task_def release_def emit_def
  broadcast_queue_update_def get_queue_position_def MusicService_new_def Let_def
  no_fault_def store_ok_def store_down_def scenario_job_def

subsection \<open>The lock and the rows that are processing\<close>

lemma running_upd:
  "running (s\<lparr>tasks := (tasks s)(j \<mapsto> t)\<rparr>) k =
     (if k = j then (case t of InExecutor fr \<Rightarrow> True | _ \<Rightarrow> False) else running s k)"
  by (simp add: running_def)
lemma gate_inv_admitted:
  assumes inv: "gate_inv s" and free: "\<not> locked s" and nr: "\<not> running s j"
    and nf: "\<not> ended s j"
  shows "gate_inv (admitted_block j r e (s\<lparr>locked := True\<rparr>))"
proof -
  let ?s = "s\<lparr>locked := True\<rparr>"
  let ?t = "admitted_block j r e ?s"
  from inv free have none: "\<And>k. \<not> running s k" by (auto simp: gate_inv_def)
  from inv none have noact: "\<And>k. active_jobs s k = None" by (auto simp: gate_inv_def)
  from inv none have proc: "\<And>k. processing s k \<Longrightarrow> \<exists>x. tasks s k = Some (Finished (Raised x))"
    by (auto simp: gate_inv_def)
  from admitted_block_cases [of j r e ?s]
  show ?thesis
  proof (elim disjE conjE exE)
    assume t: "tasks ?t = (tasks ?s)(j \<mapsto> Finished Returned)" and l: "\<not> locked ?t"
      and a: "active_jobs ?t = active_jobs ?s" and d: "db ?t = db ?s"
    have r: "\<And>k. \<not> running ?t k" using none t by (simp add: running_def)
    have p: "\<And>k. processing ?t k = processing s k" using d by (simp add: processing_def)
    have "\<not> processing s j" using proc [of j] nf
      by (auto simp: ended_def)
    then show ?thesis using r l a noact p proc t
      by (auto simp: gate_inv_def)
  next
    fix fr job
    assume t: "tasks ?t = (tasks ?s)(j \<mapsto> InExecutor fr)" and l: "locked ?t = locked ?s"
      and a: "active_jobs ?t = (active_jobs ?s)(j \<mapsto> length (tokens ?s))"
      and d: "db ?t = (db ?s)(j \<mapsto> job\<lparr>status := PROCESSING\<rparr>)"
    have r: "\<And>k. running ?t k = (k = j)" using none t by (simp add: running_def)
    have p: "\<And>k. k \<noteq> j \<Longrightarrow> processing ?t k = processing s k" using d by (simp add: processing_def)
    have q: "\<And>k. k \<noteq> j \<Longrightarrow> tasks ?t k = tasks s k" using t by simp
    show ?thesis unfolding gate_inv_def
    proof (intro conjI allI impI)
      fix a b assume "running ?t a \<and> running ?t b" then show "a = b" using r by simp
    next
      show "locked ?t = (\<exists>k. running ?t k)" using l r by simp
    next
      fix k assume "active_jobs ?t k \<noteq> None" then show "running ?t k"
        using a noact r by (simp split: if_splits)
    next
      fix k assume pk: "processing ?t k"
      show "running ?t k \<or> (\<exists>x. tasks ?t k = Some (Finished (Raised x)))"
      proof (cases "k = j")
        case True then show ?thesis using r by simp
      next
        case False
        with pk p have "processing s k" by simp
        from proc [OF this] q [OF False] show ?thesis by simp
      qed
    qed
  qed
qed

lemma gate_inv_weaken:
  assumes inv: "gate_inv s"
    and same: "tasks s' = tasks s" "locked s' = locked s" "active_jobs s' = active_jobs s"
    and proc: "\<And>k. processing s' k \<Longrightarrow> processing s k"
  shows "gate_inv s'"
proof -
  have r: "\<And>k. running s' k = running s k" using same(1) by (simp add: running_def)
  from inv have 1: "\<And>a b. running s a \<Longrightarrow> running s b \<Longrightarrow> a = b"
    and 2: "locked s = (\<exists>k. running s k)"
    and 3: "\<And>k. active_jobs s k \<noteq> None \<Longrightarrow> running s k"
    and 4: "\<And>k. processing s k \<Longrightarrow> running s k \<or> (\<exists>x. tasks s k = Some (Finished (Raised x)))"
    unfolding gate_inv_def by blast+
  show ?thesis unfolding gate_inv_def
  proof (intro conjI allI impI)
    fix a b assume "running s' a \<and> running s' b" then show "a = b" using 1 r by simp
  next
    show "locked s' = (\<exists>k. running s' k)" using 2 r same(2) by simp
  next
    fix k assume "active_jobs s' k \<noteq> None" then show "running s' k" using 3 r same(3) by simp
  next
    fix k assume "processing s' k"
    from 4 [OF proc [OF this]] show "running s' k \<or> (\<exists>x. tasks s' k = Some (Finished (Raised x)))"
      using r same(1) by simp
  qed
qed

lemma gate_inv_cong:
  assumes "tasks s' = tasks s" "locked s' = locked s" "active_jobs s' = active_jobs s" "db s' = db s"
  shows "gate_inv s' = gate_inv s"
  using assms by (simp add: gate_inv_def running_def processing_def)

lemma ended_iff: "ended s j \<longleftrightarrow> (\<exists>out. tasks s j = Some (Finished out))"
  by (simp add: ended_def split: option.splits task.splits)

lemma running_iff: "running s j \<longleftrightarrow> (\<exists>fr. tasks s j = Some (InExecutor fr))"
  by (simp add: running_def split: option.splits task.splits)

lemma gate_inv_waiting:
  assumes inv: "gate_inv s" and new: "\<not> running s j" "\<not> ended s j"
  shows "gate_inv (s\<lparr>tasks := (tasks s)(j \<mapsto> AtLock r)\<rparr>)"
proof -
  let ?t = "s\<lparr>tasks := (tasks s)(j \<mapsto> AtLock r)\<rparr>"
  have r: "\<And>k. running ?t k = running s k" using new(1) by (simp add: running_def)
  have p: "\<And>k. processing ?t k = processing s k" by (simp add: processing_def)
  have f: "\<And>k x. (tasks ?t k = Some (Finished (Raised x))) = (tasks s k = Some (Finished (Raised x)))"
    using new(2) by (simp add: ended_iff)
  from inv have 1: "\<And>a b. running s a \<Longrightarrow> running s b \<Longrightarrow> a = b"
    and 2: "locked s = (\<exists>k. running s k)"
    and 3: "\<And>k. active_jobs s k \<noteq> None \<Longrightarrow> running s k"
    and 4: "\<And>k. processing s k \<Longrightarrow> running s k \<or> (\<exists>x. tasks s k = Some (Finished (Raised x)))"
    unfolding gate_inv_def by blast+
  show ?thesis unfolding gate_inv_def
  proof (intro conjI allI impI)
    fix a b assume "running ?t a \<and> running ?t b" then show "a = b" using 1 r by simp
  next
    show "locked ?t = (\<exists>k. running ?t k)" using 2 r by simp
  next
    fix k assume "active_jobs ?t k \<noteq> None" then show "running ?t k" using 3 r by simp
  next
    fix k assume "processing ?t k"
    then have "processing s k" using p by simp
    from 4 [OF this] show "running ?t k \<or> (\<exists>x. tasks ?t k = Some (Finished (Raised x)))"
      unfolding r f .
  qed
qed

lemma gate_inv_submit:
  assumes inv: "gate_inv s" and new: "tasks s j = None"
  shows "gate_inv (submit j r e s)"
proof -
  let ?s1 = "s\<lparr>job_queue := job_queue s @ [j], arrived := arrived s @ [j]\<rparr>"
  let ?s3 = "broadcast_queue_update (emit ''job_queued''
        [(''job_id'', JStr j), (''position'', JInt (int (get_queue_position j ?s1))),
         (''total'', JInt (int (length (job_queue ?s1))))] ?s1)"
  have i3: "gate_inv ?s3" using inv gate_inv_cong [of ?s3 s] by simp
  have nr: "\<not> running ?s3 j" "\<not> ended ?s3 j" using new by (simp_all add: running_def ended_def)
  show ?thesis
  proof (cases "\<not> locked ?s3 \<and> waiters ?s3 = []")
    case True
    then have "submit j r e s = admitted_block j r e (?s3\<lparr>locked := True\<rparr>)"
      by (simp add: submit_def Let_def)
    with gate_inv_admitted [OF i3 _ nr] True show ?thesis by simp
  next
    case False
    then have eq: "submit j r e s = ?s3\<lparr>waiters := waiters ?s3 @ [j], tasks := (tasks ?s3)(j \<mapsto> AtLock r)\<rparr>"
      by (auto simp: submit_def Let_def)
    have "gate_inv (?s3\<lparr>tasks := (tasks ?s3)(j \<mapsto> AtLock r)\<rparr>)"
      by (rule gate_inv_waiting [OF i3 nr])
    then show ?thesis unfolding eq
      using gate_inv_cong [of "?s3\<lparr>waiters := waiters ?s3 @ [j], tasks := (tasks ?s3)(j \<mapsto> AtLock r)\<rparr>"
          "?s3\<lparr>tasks := (tasks ?s3)(j \<mapsto> AtLock r)\<rparr>"]
      by simp
  qed
qed
lemma gate_inv_resume:
  assumes inv: "gate_inv s"
  shows "gate_inv (resume j e s)"
proof (cases "\<exists>r. tasks s j = Some (AtLock r) \<and> \<not> locked s \<and> waiters s \<noteq> [] \<and> hd (waiters s) = j")
  case True
  then obtain r where r: "tasks s j = Some (AtLock r)" and c: "\<not> locked s" "waiters s \<noteq> []" "hd (waiters s) = j"
    by blast
  let ?s = "s\<lparr>waiters := tl (waiters s)\<rparr>"
  have eq: "resume j e s = admitted_block j r e (?s\<lparr>locked := True\<rparr>)"
    using r c by (simp add: resume_def)
  have i: "gate_inv ?s" using inv gate_inv_cong [of ?s s] by simp
  have nr: "\<not> running ?s j" "\<not> ended ?s j" using r by (simp_all add: running_def ended_def)
  from gate_inv_admitted [OF i _ nr] c show ?thesis unfolding eq by simp
next
  case False
  then have "resume j e s = s"
    by (auto simp: resume_def split: option.splits task.splits)
  with inv show ?thesis by simp
qed
lemma gate_inv_pipeline_end:
  assumes inv: "gate_inv s"
  shows "gate_inv (pipeline_end j res e s)"
proof (cases "\<exists>fr. tasks s j = Some (InExecutor fr)")
  case True
  then obtain fr where fr: "tasks s j = Some (InExecutor fr)" by blast
  let ?t = "generation_block j fr res e s"
  have eq: "pipeline_end j res e s = ?t" using fr by (simp add: pipeline_end_def)
  have rj: "running s j" using fr by (simp add: running_def)
  with inv have only: "\<And>k. running s k \<Longrightarrow> k = j" by (auto simp: gate_inv_def)
  from generation_block_gate(3) [of j fr res e s] obtain out
    where t: "tasks ?t = (tasks s)(j \<mapsto> Finished out)"
      and p: "processing ?t j \<longrightarrow> (\<exists>x. out = Raised x)" by blast
  have none: "\<And>k. \<not> running ?t k"
  proof -
    fix k show "\<not> running ?t k" using t only [of k] by (auto simp: running_def)
  qed
  have l: "\<not> locked ?t" by (rule generation_block_gate(1))
  have a: "\<And>k. active_jobs ?t k = None"
  proof -
    fix k show "active_jobs ?t k = None"
      using generation_block_gate(2) [of j fr res e s] inv only [of k]
      by (auto simp: gate_inv_def)
  qed
  have pr: "\<And>k. processing ?t k \<Longrightarrow> \<exists>x. tasks ?t k = Some (Finished (Raised x))"
  proof -
    fix k assume pk: "processing ?t k"
    show "\<exists>x. tasks ?t k = Some (Finished (Raised x))"
    proof (cases "k = j")
      case True with pk p t show ?thesis by auto
    next
      case False
      with generation_block_gate(4) [of k j fr res e s] pk have "processing s k"
        by (simp add: processing_def)
      with inv only [of k] False have "\<exists>x. tasks s k = Some (Finished (Raised x))"
        by (auto simp: gate_inv_def)
      with t False show ?thesis by simp
    qed
  qed
  show ?thesis unfolding eq gate_inv_def using none l a pr by auto
next
  case False
  then have "pipeline_end j res e s = s"
    by (auto simp: pipeline_end_def split: option.splits task.splits)
  with inv show ?thesis by simp
qed
lemma gate_inv_create:
  assumes inv: "gate_inv s"
  shows "gate_inv (create_job j job s)"
proof (rule gate_inv_weaken [OF inv])
  fix k assume "processing (create_job j job s) k"
  then show "processing s k"
    by (simp add: create_job_def processing_def split: if_splits)
qed (simp_all add: create_job_def)

lemma gate_inv_delete:
  assumes inv: "gate_inv s"
  shows "gate_inv (delete_job j s)"
proof (rule gate_inv_weaken [OF inv])
  fix k assume "processing (delete_job j s) k"
  then show "processing s k"
    by (simp add: delete_job_def processing_def split: if_splits)
qed (simp_all add: delete_job_def)

lemma gate_inv_callback:
  assumes inv: "gate_inv s"
  shows "gate_inv (pipeline_callback j p m s)"
proof (rule gate_inv_weaken [OF inv])
  fix k assume "processing (pipeline_callback j p m s) k"
  then show "processing s k"
    by (simp add: pipeline_callback_def processing_def split: option.splits task.splits)
qed (simp_all add: pipeline_callback_def split: option.splits task.splits)

lemma gate_inv_cancel:
  assumes inv: "gate_inv s"
  shows "gate_inv (snd (cancel_job j s))"
proof (rule gate_inv_weaken [OF inv])
  fix k assume "processing (snd (cancel_job j s)) k"
  then show "processing s k"
    by (simp add: cancel_job_def processing_def split: option.splits if_splits)
qed (simp_all add: cancel_job_def split: option.splits)

lemma gate_inv_step: "gate_inv s \<Longrightarrow> gate_inv (step a s)"
  by (cases a)
    (simp_all add: gate_inv_create gate_inv_delete gate_inv_submit gate_inv_resume
      gate_inv_pipeline_end gate_inv_callback gate_inv_cancel)
lemma run_snoc: "run (acts @ [a]) = step a (run acts)"
  by (simp add: run_def)
lemma gate_inv_run: "gate_inv (run acts)"
proof (induction acts rule: rev_induct)
  case Nil
  show ?case by (simp add: run_def MusicService_new_def gate_inv_def running_def processing_def)
next
  case (snoc a acts)
  then show ?case by (simp add: run_snoc gate_inv_step)
qed

subsection \<open>The order of the lock\<close>

lemma subseq_subset: "subseq xs ys \<Longrightarrow> set xs \<subseteq> set ys"
proof
  fix x assume "subseq xs ys" "x \<in> set xs"
  then show "x \<in> set ys" by (rule list_emb_set) simp
qed

lemma subseq_remove1_head:
  assumes "subseq q (j # w)" and "j \<notin> set w"
  shows "subseq (remove1 j q) w"
proof (cases q)
  case Nil
  then show ?thesis by simp
next
  case (Cons x q')
  show ?thesis
  proof (cases "x = j")
    case True
    with assms(1) Cons show ?thesis by simp
  next
    case False
    with assms(1) Cons have s: "subseq q w" by simp
    then have "set q \<subseteq> set w" by (rule subseq_subset)
    with assms(2) have "j \<notin> set q" by blast
    then show ?thesis using s by (simp add: remove1_idem)
  qed
qed

lemma subseq_remove1_any: "subseq (remove1 j q) q"
  by (induction q) auto

lemma admitted_block_task:
  "\<exists>t. tasks (admitted_block j r e s) = (tasks s)(j \<mapsto> t) \<and> (\<forall>r'. t \<noteq> AtLock r')"
  using admitted_block_cases [of j r e s] by auto

lemma fifo_inv_admitted:
  assumes a: "arrived s = admitted s @ j # waiters s" and d: "distinct (arrived s)"
    and n: "\<And>k. k \<in> set (arrived s) \<Longrightarrow> k \<noteq> j \<Longrightarrow> tasks s k \<noteq> None"
    and l: "\<And>k. k \<in> set (waiters s) \<Longrightarrow> \<exists>r. tasks s k = Some (AtLock r)"
    and q: "subseq (job_queue s) (j # waiters s)"
  shows "fifo_inv (admitted_block j r e s)"
proof -
  let ?t = "admitted_block j r e s"
  from a d have jw: "j \<notin> set (waiters s)" by auto
  from admitted_block_task [of j r e s] obtain t
    where t: "tasks ?t = (tasks s)(j \<mapsto> t)" by auto
  have o: "job_queue ?t = remove1 j (job_queue s)" "waiters ?t = waiters s" "arrived ?t = arrived s"
    "admitted ?t = admitted s @ [j]"
    by (simp_all add: admitted_block_order)
  show ?thesis unfolding fifo_inv_def o
  proof (intro conjI ballI)
    show "arrived s = (admitted s @ [j]) @ waiters s" using a by simp
    show "distinct (arrived s)" by (rule d)
    show "subseq (remove1 j (job_queue s)) (waiters s)" by (rule subseq_remove1_head [OF q jw])
  next
    fix k assume "k \<in> set (arrived s)"
    then show "tasks ?t k \<noteq> None" using n [of k] t by (cases "k = j") simp_all
  next
    fix k assume k: "k \<in> set (waiters s)"
    with jw have "k \<noteq> j" by blast
    with l [OF k] t show "\<exists>r. tasks ?t k = Some (AtLock r)" by simp
  qed
qed

lemma fifo_inv_submit:
  assumes inv: "fifo_inv s" and new: "tasks s j = None"
  shows "fifo_inv (submit j r e s)"
proof -
  let ?s1 = "s\<lparr>job_queue := job_queue s @ [j], arrived := arrived s @ [j]\<rparr>"
  let ?s3 = "broadcast_queue_update (emit ''job_queued''
        [(''job_id'', JStr j), (''position'', JInt (int (get_queue_position j ?s1))),
         (''total'', JInt (int (length (job_queue ?s1))))] ?s1)"
  from inv have a: "arrived s = admitted s @ waiters s" and d: "distinct (arrived s)"
    and n: "\<And>k. k \<in> set (arrived s) \<Longrightarrow> tasks s k \<noteq> None"
    and l: "\<And>k. k \<in> set (waiters s) \<Longrightarrow> \<exists>r. tasks s k = Some (AtLock r)"
    and q: "subseq (job_queue s) (waiters s)"
    by (auto simp: fifo_inv_def)
  from n [of j] new have ja: "j \<notin> set (arrived s)" by auto
  show ?thesis
  proof (cases "\<not> locked ?s3 \<and> waiters ?s3 = []")
    case True
    then have w: "waiters s = []" by simp
    with q have q0: "job_queue s = []" by simp
    have eq: "submit j r e s = admitted_block j r e (?s3\<lparr>locked := True\<rparr>)"
      using True by (simp add: submit_def Let_def)
    show ?thesis unfolding eq
    proof (rule fifo_inv_admitted)
      show "arrived (?s3\<lparr>locked := True\<rparr>) =
          admitted (?s3\<lparr>locked := True\<rparr>) @ j # waiters (?s3\<lparr>locked := True\<rparr>)"
        using a w by simp
      show "distinct (arrived (?s3\<lparr>locked := True\<rparr>))" using d ja by simp
      show "subseq (job_queue (?s3\<lparr>locked := True\<rparr>)) (j # waiters (?s3\<lparr>locked := True\<rparr>))"
        using q0 w by simp
    next
      fix k assume "k \<in> set (arrived (?s3\<lparr>locked := True\<rparr>))" "k \<noteq> j"
      then show "tasks (?s3\<lparr>locked := True\<rparr>) k \<noteq> None" using n [of k] by simp
    next
      fix k assume "k \<in> set (waiters (?s3\<lparr>locked := True\<rparr>))"
      then show "\<exists>r. tasks (?s3\<lparr>locked := True\<rparr>) k = Some (AtLock r)" using w by simp
    qed
  next
    case False
    then have eq: "submit j r e s = ?s3\<lparr>waiters := waiters ?s3 @ [j], tasks := (tasks ?s3)(j \<mapsto> AtLock r)\<rparr>"
      by (auto simp: submit_def Let_def)
    have jw: "j \<notin> set (waiters s)" using ja a by simp
    show ?thesis unfolding eq fifo_inv_def
    proof (intro conjI ballI)
      fix k assume "k \<in> set (waiters (?s3\<lparr>waiters := waiters ?s3 @ [j], tasks := (tasks ?s3)(j \<mapsto> AtLock r)\<rparr>))"
      then show "\<exists>r'. tasks (?s3\<lparr>waiters := waiters ?s3 @ [j], tasks := (tasks ?s3)(j \<mapsto> AtLock r)\<rparr>) k = Some (AtLock r')"
        using l [of k] by (cases "k = j") simp_all
    next
      fix k assume "k \<in> set (arrived (?s3\<lparr>waiters := waiters ?s3 @ [j], tasks := (tasks ?s3)(j \<mapsto> AtLock r)\<rparr>))"
      then show "tasks (?s3\<lparr>waiters := waiters ?s3 @ [j], tasks := (tasks ?s3)(j \<mapsto> AtLock r)\<rparr>) k \<noteq> None"
        using n [of k] by (cases "k = j") simp_all
    qed (use a d q ja in simp_all)
  qed
qed

lemma fifo_inv_resume:
  assumes inv: "fifo_inv s"
  shows "fifo_inv (resume j e s)"
proof (cases "\<exists>r. tasks s j = Some (AtLock r) \<and> \<not> locked s \<and> waiters s \<noteq> [] \<and> hd (waiters s) = j")
  case True
  then obtain r where r: "tasks s j = Some (AtLock r)" and c: "\<not> locked s" "waiters s \<noteq> []" "hd (waiters s) = j"
    by blast
  from c obtain w where w: "waiters s = j # w" by (cases "waiters s") auto
  let ?s = "s\<lparr>waiters := tl (waiters s), locked := True\<rparr>"
  have eq: "resume j e s = admitted_block j r e ?s"
    using r c by (simp add: resume_def)
  from inv have a: "arrived s = admitted s @ waiters s" and d: "distinct (arrived s)"
    and n: "\<And>k. k \<in> set (arrived s) \<Longrightarrow> tasks s k \<noteq> None"
    and l: "\<And>k. k \<in> set (waiters s) \<Longrightarrow> \<exists>r. tasks s k = Some (AtLock r)"
    and q: "subseq (job_queue s) (waiters s)"
    by (auto simp: fifo_inv_def)
  show ?thesis unfolding eq
  proof (rule fifo_inv_admitted)
    show "arrived ?s = admitted ?s @ j # waiters ?s" using a w by simp
    show "distinct (arrived ?s)" using d by simp
    show "subseq (job_queue ?s) (j # waiters ?s)" using q w by simp
  next
    fix k assume "k \<in> set (arrived ?s)" "k \<noteq> j"
    then show "tasks ?s k \<noteq> None" using n [of k] by simp
  next
    fix k assume "k \<in> set (waiters ?s)"
    then show "\<exists>r. tasks ?s k = Some (AtLock r)" using l [of k] w by simp
  qed
next
  case False
  then have "resume j e s = s"
    by (auto simp: resume_def split: option.splits task.splits)
  with inv show ?thesis by simp
qed

lemma fifo_inv_pipeline_end:
  assumes inv: "fifo_inv s"
  shows "fifo_inv (pipeline_end j res e s)"
proof (cases "\<exists>fr. tasks s j = Some (InExecutor fr)")
  case True
  then obtain fr where fr: "tasks s j = Some (InExecutor fr)" by blast
  let ?t = "generation_block j fr res e s"
  have eq: "pipeline_end j res e s = ?t" using fr by (simp add: pipeline_end_def)
  from generation_block_gate(3) [of j fr res e s] obtain out
    where t: "tasks ?t = (tasks s)(j \<mapsto> Finished out)" by blast
  from inv have a: "arrived s = admitted s @ waiters s" and d: "distinct (arrived s)"
    and n: "\<And>k. k \<in> set (arrived s) \<Longrightarrow> tasks s k \<noteq> None"
    and l: "\<And>k. k \<in> set (waiters s) \<Longrightarrow> \<exists>r. tasks s k = Some (AtLock r)"
    and q: "subseq (job_queue s) (waiters s)"
    by (auto simp: fifo_inv_def)
  show ?thesis unfolding eq fifo_inv_def generation_block_order
  proof (intro conjI ballI)
    fix k assume "k \<in> set (arrived s)"
    then show "tasks ?t k \<noteq> None" using n [of k] t by (cases "k = j") simp_all
  next
    fix k assume k: "k \<in> set (waiters s)"
    from l [OF k] fr have "k \<noteq> j" by auto
    with l [OF k] t show "\<exists>r. tasks ?t k = Some (AtLock r)" by simp
  qed (rule a d q)+
next
  case False
  then have "pipeline_end j res e s = s"
    by (auto simp: pipeline_end_def split: option.splits task.splits)
  with inv show ?thesis by simp
qed

lemma fifo_inv_frame:
  assumes "fifo_inv s" and "subseq (job_queue s') (waiters s)"
    and "arrived s' = arrived s" "admitted s' = admitted s" "waiters s' = waiters s"
      "tasks s' = tasks s"
  shows "fifo_inv s'"
  using assms(1,2) unfolding fifo_inv_def assms(3-6) by blast

lemma fifo_inv_queue: "fifo_inv s \<Longrightarrow> subseq (job_queue s) (waiters s)"
  unfolding fifo_inv_def by blast

lemma fifo_inv_cancel:
  assumes inv: "fifo_inv s"
  shows "fifo_inv (snd (cancel_job j s))"
proof (cases "j \<in> set (job_queue s)")
  case True
  then have eq: "snd (cancel_job j s) = broadcast_queue_update (s\<lparr>job_queue := remove1 j (job_queue s)\<rparr>)"
    by (simp add: cancel_job_def)
  from subseq_remove1_any [of j "job_queue s"] fifo_inv_queue [OF inv]
  have "subseq (remove1 j (job_queue s)) (waiters s)" by (rule subseq_order.trans)
  then show ?thesis unfolding eq by (intro fifo_inv_frame [OF inv]) simp_all
next
  case False
  show ?thesis
    by (rule fifo_inv_frame [OF inv])
      (use False fifo_inv_queue [OF inv] in \<open>simp_all add: cancel_job_def split: option.splits\<close>)
qed

lemma fifo_inv_step:
  assumes inv: "fifo_inv s"
  shows "fifo_inv (step a s)"
proof (cases a)
  case (Create j job)
  have "fifo_inv (create_job j job s)"
    by (rule fifo_inv_frame [OF inv]) (use fifo_inv_queue [OF inv] in \<open>simp_all add: create_job_def\<close>)
  with Create show ?thesis by simp
next
  case (Delete j)
  have "fifo_inv (delete_job j s)"
    by (rule fifo_inv_frame [OF inv]) (use fifo_inv_queue [OF inv] in \<open>simp_all add: delete_job_def\<close>)
  with Delete show ?thesis by simp
next
  case (Submit j r e)
  with inv show ?thesis by (simp add: fifo_inv_submit)
next
  case (Resume j e)
  with inv show ?thesis by (simp add: fifo_inv_resume)
next
  case (PipelineEnd j res e)
  with inv show ?thesis by (simp add: fifo_inv_pipeline_end)
next
  case (Progress j p m)
  have "fifo_inv (pipeline_callback j p m s)"
    by (rule fifo_inv_frame [OF inv])
      (use fifo_inv_queue [OF inv] in
        \<open>simp_all add: pipeline_callback_def split: option.splits task.splits\<close>)
  with Progress show ?thesis by simp
next
  case (Cancel j)
  with inv show ?thesis by (simp add: fifo_inv_cancel)
qed

lemma fifo_inv_run: "fifo_inv (run acts)"
proof (induction acts rule: rev_induct)
  case Nil
  show ?case by (simp add: run_def MusicService_new_def fifo_inv_def)
next
  case (snoc a acts)
  then show ?case by (simp add: run_snoc fifo_inv_step)
qed

subsection \<open>One job in the Processing state\<close>

lemma live_iff: "live s j \<longleftrightarrow> (\<exists>t. tasks s j = Some t \<and> (\<forall>out. t \<noteq> Finished out))"
  by (auto simp: live_def split: option.splits task.splits)

text \<open>
  Claim C1, as amended.  In every state that the system can reach, two jobs whose rows
  say \<open>PROCESSING\<close> and whose calls of \<open>generate_task\<close> are both still live are the same
  job; such a job is the one that holds the lock and waits for the pipeline.  A row that
  says \<open>PROCESSING\<close> while its call is no longer live belongs to a call that an
  exception left, which happens when the handler cannot write \<open>FAILED\<close>.
\<close>

theorem one_live_job_processing:
  "(\<forall>j k. processing (run acts) j \<and> live (run acts) j \<and>
          processing (run acts) k \<and> live (run acts) k \<longrightarrow> j = k) \<and>
   (\<forall>j. processing (run acts) j \<and> live (run acts) j \<longrightarrow>
        running (run acts) j \<and> locked (run acts)) \<and>
   (\<forall>j. processing (run acts) j \<and> \<not> live (run acts) j \<longrightarrow>
        (\<exists>x. tasks (run acts) j = Some (Finished (Raised x))))"
proof -
  let ?s = "run acts"
  from gate_inv_run [of acts]
  have 1: "\<And>a b. running ?s a \<Longrightarrow> running ?s b \<Longrightarrow> a = b"
    and 2: "locked ?s = (\<exists>k. running ?s k)"
    and 4: "\<And>k. processing ?s k \<Longrightarrow> running ?s k \<or> (\<exists>x. tasks ?s k = Some (Finished (Raised x)))"
    unfolding gate_inv_def by blast+
  have r: "\<And>j. processing ?s j \<Longrightarrow> live ?s j \<Longrightarrow> running ?s j"
  proof -
    fix j assume "processing ?s j" "live ?s j"
    with 4 [of j] show "running ?s j" by (auto simp: live_iff)
  qed
  have n: "\<And>j. processing ?s j \<Longrightarrow> \<not> live ?s j \<Longrightarrow> \<exists>x. tasks ?s j = Some (Finished (Raised x))"
  proof -
    fix j assume "processing ?s j" "\<not> live ?s j"
    with 4 [of j] show "\<exists>x. tasks ?s j = Some (Finished (Raised x))"
      by (auto simp: live_iff running_iff)
  qed
  show ?thesis using r n 1 2 by blast
qed

theorem one_live_job_processing_witness:
  "processing (run busy_trace) ''a'' \<and> live (run busy_trace) ''a'' \<and>
   running (run busy_trace) ''a'' \<and> locked (run busy_trace) \<and>
   live (run busy_trace) ''b'' \<and> \<not> processing (run busy_trace) ''b''"
  using one_live_job_processing [of busy_trace]
  by (simp add: busy_trace_def eval_defs processing_def running_def live_def)

text \<open>
  Claim C1 as stated fails: when the pipeline of job a raises and the store raises again
  in the handler, the call of a ends with the row of a still at \<open>PROCESSING\<close>; job b then
  gets the lock, and both rows say \<open>PROCESSING\<close> while b is generating.
\<close>

theorem two_rows_processing:
  "processing (run stuck_trace) ''a'' \<and> processing (run stuck_trace) ''b'' \<and>
   running (run stuck_trace) ''b'' \<and> live (run stuck_trace) ''b''"
  by (simp add: stuck_trace_def eval_defs processing_def running_def live_def)

subsection \<open>The order in which jobs get the lock\<close>

text \<open>
  A call of \<open>cancel_job\<close> that takes no job off the queue (the job is generating, or
  unknown) leaves the queue that is shown equal to the line of the lock.
\<close>

lemma no_queued_cancel_snoc:
  assumes "no_queued_cancel (acts @ [a])"
  shows "no_queued_cancel acts" and "a = Cancel j \<Longrightarrow> j \<notin> set (job_queue (run acts))"
proof -
  show "no_queued_cancel acts" unfolding no_queued_cancel_def
  proof (intro allI impI)
    fix n assume n: "n < length acts"
    then have "n < length (acts @ [a])" by simp
    with assms have "case (acts @ [a]) ! n of
          Cancel j \<Rightarrow> j \<notin> set (job_queue (run (take n (acts @ [a]))))
        | _ \<Rightarrow> True"
      unfolding no_queued_cancel_def by blast
    with n show "case acts ! n of
          Cancel j \<Rightarrow> j \<notin> set (job_queue (run (take n acts)))
        | _ \<Rightarrow> True"
      by (simp add: nth_append split: action.splits)
  qed
next
  assume a: "a = Cancel j"
  have "length acts < length (acts @ [a])" by simp
  with assms have "case (acts @ [a]) ! length acts of
          Cancel j \<Rightarrow> j \<notin> set (job_queue (run (take (length acts) (acts @ [a]))))
        | _ \<Rightarrow> True"
    unfolding no_queued_cancel_def by blast
  with a show "j \<notin> set (job_queue (run acts))" by simp
qed

lemma queue_is_line_step:
  assumes eq: "job_queue s = waiters s"
    and nc: "\<And>j. a = Cancel j \<Longrightarrow> j \<notin> set (job_queue s)"
  shows "job_queue (step a s) = waiters (step a s)"
proof (cases a)
  case (Create j job)
  with eq show ?thesis by (simp add: create_job_def)
next
  case (Delete j)
  with eq show ?thesis by (simp add: delete_job_def)
next
  case (Submit j r e)
  show ?thesis
  proof (cases "tasks s j = None")
    case True
    show ?thesis
    proof (cases "\<not> locked s \<and> waiters s = []")
      case True
      with \<open>tasks s j = None\<close> Submit eq show ?thesis
        by (simp add: submit_def Let_def admitted_block_order)
    next
      case False
      with \<open>tasks s j = None\<close> Submit eq show ?thesis
        by (auto simp: submit_def Let_def)
    qed
  next
    case False
    with Submit eq show ?thesis by auto
  qed
next
  case (Resume j e)
  show ?thesis
  proof (cases "\<exists>r. tasks s j = Some (AtLock r) \<and> \<not> locked s \<and> waiters s \<noteq> [] \<and> hd (waiters s) = j")
    case True
    then obtain r where r: "tasks s j = Some (AtLock r)"
      and c: "\<not> locked s" "waiters s \<noteq> []" "hd (waiters s) = j" by blast
    from c obtain w where w: "waiters s = j # w" by (cases "waiters s") auto
    have "resume j e s = admitted_block j r e (s\<lparr>waiters := tl (waiters s), locked := True\<rparr>)"
      using r c by (simp add: resume_def)
    with Resume eq w show ?thesis by (simp add: admitted_block_order)
  next
    case False
    then have "resume j e s = s"
      by (auto simp: resume_def split: option.splits task.splits)
    with Resume eq show ?thesis by simp
  qed
next
  case (PipelineEnd j res e)
  show ?thesis
  proof (cases "\<exists>fr. tasks s j = Some (InExecutor fr)")
    case True
    then obtain fr where "tasks s j = Some (InExecutor fr)" by blast
    then have "pipeline_end j res e s = generation_block j fr res e s"
      by (simp add: pipeline_end_def)
    with PipelineEnd eq show ?thesis by (simp add: generation_block_order)
  next
    case False
    then have "pipeline_end j res e s = s"
      by (auto simp: pipeline_end_def split: option.splits task.splits)
    with PipelineEnd eq show ?thesis by simp
  qed
next
  case (Progress j p m)
  with eq show ?thesis
    by (simp add: pipeline_callback_def split: option.splits task.splits)
next
  case (Cancel j)
  with nc have "j \<notin> set (job_queue s)" by simp
  with Cancel eq show ?thesis by (simp add: cancel_job_def split: option.splits)
qed

lemma queue_is_line_run:
  "no_queued_cancel acts \<Longrightarrow> job_queue (run acts) = waiters (run acts)"
proof (induction acts rule: rev_induct)
  case Nil
  show ?case by (simp add: run_def MusicService_new_def)
next
  case (snoc a acts)
  from no_queued_cancel_snoc(1) [OF snoc.prems]
  have eq: "job_queue (run acts) = waiters (run acts)" by (rule snoc.IH)
  have "\<And>j. a = Cancel j \<Longrightarrow> j \<notin> set (job_queue (run acts))"
    by (rule no_queued_cancel_snoc(2) [OF snoc.prems])
  from queue_is_line_step [OF eq this] show ?case by (simp add: run_snoc)
qed

text \<open>
  The jobs get the lock in the order in which they were appended to the queue: the k-th
  job that got the lock is the k-th that arrived, and the jobs that still wait, wait in
  their order of arrival.  The queue that is shown lists waiting jobs in the order in
  which they will get the lock.  In a run in which no call of \<open>cancel_job\<close> took a job
  off the queue, the queue that is shown is the line of the lock, and the position
  shown for a job is its place in line.
\<close>

lemma gate_order:
  "arrived (run acts) = admitted (run acts) @ waiters (run acts) \<and>
   distinct (arrived (run acts)) \<and>
   (\<forall>k < length (admitted (run acts)). admitted (run acts) ! k = arrived (run acts) ! k) \<and>
   subseq (job_queue (run acts)) (waiters (run acts)) \<and>
   (no_queued_cancel acts \<longrightarrow>
      job_queue (run acts) = waiters (run acts) \<and>
      (\<forall>j. get_queue_position j (run acts) = place_in_line j (run acts)))"
proof -
  from fifo_inv_run [of acts]
  have a: "arrived (run acts) = admitted (run acts) @ waiters (run acts)"
    and d: "distinct (arrived (run acts))"
    and q: "subseq (job_queue (run acts)) (waiters (run acts))"
    unfolding fifo_inv_def by blast+
  have n: "\<forall>k < length (admitted (run acts)). admitted (run acts) ! k = arrived (run acts) ! k"
    by (simp add: a nth_append)
  have c: "no_queued_cancel acts \<longrightarrow>
      job_queue (run acts) = waiters (run acts) \<and>
      (\<forall>j. get_queue_position j (run acts) = place_in_line j (run acts))"
    using queue_is_line_run [of acts] by (simp add: get_queue_position_def place_in_line_def)
  show ?thesis by (intro conjI a d n q c)
qed

lemma gate_order_example:
  "no_queued_cancel (busy_trace @ [Cancel ''a'', Cancel ''z'']) \<and>
   job_queue (run (busy_trace @ [Cancel ''a'', Cancel ''z''])) = [''b''] \<and>
   get_queue_position ''b'' (run (busy_trace @ [Cancel ''a'', Cancel ''z''])) = 1 \<and>
   place_in_line ''b'' (run (busy_trace @ [Cancel ''a'', Cancel ''z''])) = 1"
  by (simp add: no_queued_cancel_def busy_trace_def eval_defs place_in_line_def
      less_Suc_eq all_conj_distrib)

text \<open>
  Claim C2 at the failing input.  Jobs a, b and c arrive in this order; a is generating
  and b and c wait.  After \<open>cancel_job\<close> for b, job c is shown at position 1 of 1 (by
  \<open>get_queue_position\<close> and in the last event published), but its place in the line of
  the lock is 2: b is still first.  When a is done, c cannot go on, b gets the lock and
  starts generating.  The position shown has diverged from the order of execution.
\<close>

theorem displayed_position_diverges:
  "get_queue_position ''c'' (run cancel_trace) = 1 \<and>
   last (published (run cancel_trace)) =
     (''job_queue'', [(''job_id'', JStr ''c''), (''position'', JInt 1), (''total'', JInt 1)]) \<and>
   place_in_line ''c'' (run cancel_trace) = 2 \<and>
   waiters (run cancel_trace) = [''b'', ''c''] \<and>
   running (run (cancel_trace @ [PipelineEnd ''a'' PipelineReturned store_ok,
                                 Resume ''c'' no_fault, Resume ''b'' no_fault])) ''b'' \<and>
   \<not> running (run (cancel_trace @ [PipelineEnd ''a'' PipelineReturned store_ok,
                                 Resume ''c'' no_fault, Resume ''b'' no_fault])) ''c''"
  by (simp add: cancel_trace_def eval_defs running_def place_in_line_def queue_event_def)

subsection \<open>Cancellation\<close>

text \<open>The three cases of \<open>cancel_job\<close>, in the order of the source.\<close>

lemma cancel_job_protocol:
  "(j \<in> set (job_queue s) \<longrightarrow>
      cancel_job j s = (True, broadcast_queue_update (s\<lparr>job_queue := remove1 j (job_queue s)\<rparr>))) \<and>
   (j \<notin> set (job_queue s) \<and> active_jobs s j = Some a \<longrightarrow>
      cancel_job j s = (True, s\<lparr>tokens := (tokens s)[a := True]\<rparr>)) \<and>
   (j \<notin> set (job_queue s) \<and> active_jobs s j = None \<longrightarrow> cancel_job j s = (False, s))"
  by (simp add: cancel_job_def)

text \<open>
  Claim C3 at the failing input.  Job a is generating, b and c wait, and \<open>cancel_job\<close>
  for b returns \<open>True\<close> and takes b off the queue.  The call of \<open>generate_task\<close> for b
  still waits for the lock: when a is done, b gets the lock, its row is set to
  \<open>PROCESSING\<close> and its pipeline is started.
\<close>

theorem cancelled_job_still_processed:
  "fst (cancel_job ''b'' (run (butlast cancel_trace))) \<and>
   ''b'' \<notin> set (job_queue (run cancel_trace)) \<and>
   running (run (cancel_trace @ [PipelineEnd ''a'' PipelineReturned store_ok,
                                 Resume ''b'' no_fault])) ''b'' \<and>
   processing (run (cancel_trace @ [PipelineEnd ''a'' PipelineReturned store_ok,
                                    Resume ''b'' no_fault])) ''b''"
  by (simp add: cancel_trace_def eval_defs running_def processing_def)

subsection \<open>A row deleted under a call\<close>

text \<open>
  With the row of the job missing, none of the three places writes to the store.  Before
  processing and on the completion path the call returns and publishes nothing about
  the job's state; on the failure path nothing is published either, but the call ends
  with the exception \<open>NoResultFound\<close>.
\<close>

lemma stale_row_admitted:
  assumes "db s j = None"
  shows "db (admitted_block j r e s) = db s"
    and "tasks (admitted_block j r e s) j = Some (Finished Returned)"
    and "published (admitted_block j r e s) =
           published (if j \<in> set (job_queue s)
                      then broadcast_queue_update (s\<lparr>job_queue := remove1 j (job_queue s)\<rparr>) else s)"
  using assms
  by (simp_all add: admitted_block_def Let_def end_task_def release_def broadcast_queue_update_def)

lemma stale_row_generation:
  assumes "db s j = None" and "completed_fault e = None" and "failed_fault e = None"
  shows "db (generation_block j fr res e s) = db s"
    and "published (generation_block j fr res e s) = published s"
    and "tasks (generation_block j fr PipelineReturned e s) j = Some (Finished Returned)"
    and "tasks (generation_block j fr (PipelineRaised x) e s) j = Some (Finished (Raised NoResultFound))"
  using assms
  by (simp_all add: generation_block_def try_body_def except_handler_def finally_block_def
      Let_def end_task_def release_def split: pipeline_result.splits)

text \<open>
  Claim C4 at the failing input.  The row of job a is deleted while a is generating.
  When the pipeline then raises, the handler's \<open>.one()\<close> raises \<open>NoResultFound\<close>, which
  leaves \<open>generate_task\<close>; when the pipeline returns, the call returns quietly.  In both
  cases nothing is written and nothing is published.
\<close>

theorem deleted_row_failure_path_raises:
  "tasks (run (deleted_trace @
        [PipelineEnd ''a'' (PipelineRaised (OtherError ''out of memory'')) store_ok])) ''a'' =
     Some (Finished (Raised NoResultFound)) \<and>
   tasks (run (deleted_trace @ [PipelineEnd ''a'' PipelineReturned store_ok])) ''a'' =
     Some (Finished Returned) \<and>
   published (run (deleted_trace @
        [PipelineEnd ''a'' (PipelineRaised (OtherError ''out of memory'')) store_ok])) =
     published (run deleted_trace) \<and>
   db (run (deleted_trace @
        [PipelineEnd ''a'' (PipelineRaised (OtherError ''out of memory'')) store_ok])) ''a'' = None"
  by (simp add: deleted_trace_def eval_defs)

subsection \<open>The lock and the token at the end of a call\<close>

text \<open>
  Claim C5.  However the pipeline ended and whatever the store raised, the block that
  ends a call after generation leaves the lock free and the job without a token; a call
  that ends before generation (the row is missing, or the store raises) leaves the lock
  free and has registered no token.  So in every state the system can reach, a call
  that has ended has no token, and if the lock is held then another call, which is
  generating, holds it.
\<close>

theorem gate_and_token_released:
  "\<not> locked (generation_block j fr res e s) \<and>
   active_jobs (generation_block j fr res e s) j = None \<and>
   ended (generation_block j fr res e s) j \<and>
   (ended (admitted_block j r env s) j \<longrightarrow>
      \<not> locked (admitted_block j r env s) \<and>
      active_jobs (admitted_block j r env s) = active_jobs s) \<and>
   (ended (run acts) j \<longrightarrow>
      active_jobs (run acts) j = None \<and>
      (locked (run acts) \<longrightarrow> (\<exists>k. k \<noteq> j \<and> running (run acts) k)))"
proof -
  have g: "\<not> locked (generation_block j fr res e s)"
    "active_jobs (generation_block j fr res e s) j = None"
    by (simp_all add: generation_block_gate(1,2))
  from generation_block_gate(3) [of j fr res e s] obtain out
    where "tasks (generation_block j fr res e s) = (tasks s)(j \<mapsto> Finished out)" by blast
  then have "tasks (generation_block j fr res e s) j = Some (Finished out)" by simp
  then have ge: "ended (generation_block j fr res e s) j" unfolding ended_iff by blast
  have ad: "\<not> locked (admitted_block j r env s) \<and>
      active_jobs (admitted_block j r env s) = active_jobs s"
    if en: "ended (admitted_block j r env s) j"
  proof -
    from admitted_block_cases [of j r env s] show ?thesis
    proof (elim disjE exE conjE)
      assume "\<not> locked (admitted_block j r env s)"
        "active_jobs (admitted_block j r env s) = active_jobs s"
      then show ?thesis by simp
    next
      fix fr' job
      assume "tasks (admitted_block j r env s) = (tasks s)(j \<mapsto> InExecutor fr')"
      then have "tasks (admitted_block j r env s) j = Some (InExecutor fr')" by simp
      with en show ?thesis unfolding ended_iff by simp
    qed
  qed
  have rn: "active_jobs (run acts) j = None \<and>
      (locked (run acts) \<longrightarrow> (\<exists>k. k \<noteq> j \<and> running (run acts) k))"
    if e: "ended (run acts) j"
  proof -
    from gate_inv_run [of acts]
    have 2: "locked (run acts) = (\<exists>k. running (run acts) k)"
      and 3: "\<And>k. active_jobs (run acts) k \<noteq> None \<Longrightarrow> running (run acts) k"
      unfolding gate_inv_def by simp_all
    from e obtain out where "tasks (run acts) j = Some (Finished out)" unfolding ended_iff by blast
    then have nr: "\<not> running (run acts) j" unfolding running_iff by simp
    with 3 [of j] have "active_jobs (run acts) j = None" by (cases "active_jobs (run acts) j") simp_all
    moreover have "\<exists>k. k \<noteq> j \<and> running (run acts) k" if "locked (run acts)"
    proof -
      from that 2 have "\<exists>k. running (run acts) k" by simp
      then obtain k where k: "running (run acts) k" ..
      with nr have "k \<noteq> j" by (cases "k = j") simp_all
      with k show ?thesis by (intro exI conjI)
    qed
    ultimately show ?thesis by (intro conjI impI)
  qed
  show ?thesis
  proof (intro conjI impI)
    show "\<not> locked (generation_block j fr res e s)" by (rule g(1))
    show "active_jobs (generation_block j fr res e s) j = None" by (rule g(2))
    show "ended (generation_block j fr res e s) j" by (rule ge)
  next
    assume en: "ended (admitted_block j r env s) j"
    from ad [OF en] show "\<not> locked (admitted_block j r env s)" by (rule conjunct1)
    from ad [OF en] show "active_jobs (admitted_block j r env s) = active_jobs s"
      by (rule conjunct2)
  next
    assume en: "ended (run acts) j"
    from rn [OF en] show "active_jobs (run acts) j = None" by (rule conjunct1)
    assume "locked (run acts)"
    with rn [OF en] show "\<exists>k. k \<noteq> j \<and> running (run acts) k" by (elim conjE impE)
  qed
qed

theorem gate_and_token_released_witness:
  "ended (run stuck_trace) ''a'' \<and> locked (run stuck_trace) \<and>
   active_jobs (run stuck_trace) ''a'' = None \<and>
   (\<exists>k. k \<noteq> ''a'' \<and> running (run stuck_trace) k) \<and>
   ended (admitted_block ''a'' scenario_request no_fault MusicService_new) ''a'' \<and>
   \<not> locked (admitted_block ''a'' scenario_request no_fault MusicService_new) \<and>
   \<not> locked (generation_block ''a''
        \<lparr>f_request = scenario_request, f_abort_event = 0, f_auto_title = ''Rain'', f_seed_to_use = 7\<rparr>
        (PipelineRaised (OtherError ''out of memory'')) store_down MusicService_new)"
proof -
  note t = gate_and_token_released [of "''a''"
      "\<lparr>f_request = scenario_request, f_abort_event = 0, f_auto_title = ''Rain'', f_seed_to_use = 7\<rparr>"
      "PipelineRaised (OtherError ''out of memory'')" store_down MusicService_new
      scenario_request no_fault stuck_trace]
  have e: "ended (run stuck_trace) ''a''"
    by (simp add: stuck_trace_def eval_defs ended_def)
  have l: "locked (run stuck_trace)"
    by (simp add: stuck_trace_def eval_defs)
  have a: "ended (admitted_block ''a'' scenario_request no_fault MusicService_new) ''a''"
    by (simp add: eval_defs ended_def)
  note g = t [THEN conjunct1]
  note ad = t [THEN conjunct2, THEN conjunct2, THEN conjunct2, THEN conjunct1, THEN mp, OF a]
  note rn = t [THEN conjunct2, THEN conjunct2, THEN conjunct2, THEN conjunct2, THEN mp, OF e]
  from rn l have k: "\<exists>k. k \<noteq> ''a'' \<and> running (run stuck_trace) k" by (elim conjE impE)
  show ?thesis
    by (intro conjI e l a g k rn [THEN conjunct1] ad [THEN conjunct1])
qed

subsection \<open>Registering a token\<close>

text \<open>
  Claim C7, as amended.  Registering a token never fails (\<open>register_token\<close> has no
  error result): it creates a fresh, unset event and stores it under the job id, other
  ids keep their tokens, and a token that was stored under the id before is replaced
  without being touched.  In the running service the id has no token when its call
  registers one: an id whose call has not started or still waits for the lock has none.
\<close>

theorem register_replaces_token:
  "fst (register_token j s) = length (tokens s) \<and>
   active_jobs (snd (register_token j s)) j = Some (length (tokens s)) \<and>
   tokens (snd (register_token j s)) = tokens s @ [False] \<and>
   (\<forall>k. k \<noteq> j \<longrightarrow> active_jobs (snd (register_token j s)) k = active_jobs s k) \<and>
   (\<forall>old. active_jobs s j = Some old \<and> old < length (tokens s) \<longrightarrow>
      active_jobs (snd (register_token j s)) j \<noteq> Some old \<and>
      tokens (snd (register_token j s)) ! old = tokens s ! old) \<and>
   (tasks (run acts) j = None \<or> (\<exists>r. tasks (run acts) j = Some (AtLock r)) \<longrightarrow>
      active_jobs (run acts) j = None)"
proof -
  have "active_jobs (run acts) j = None"
    if "tasks (run acts) j = None \<or> (\<exists>r. tasks (run acts) j = Some (AtLock r))"
  proof -
    from gate_inv_run [of acts]
    have 3: "\<And>k. active_jobs (run acts) k \<noteq> None \<Longrightarrow> running (run acts) k"
      unfolding gate_inv_def by blast+
    from that have "\<not> running (run acts) j" by (auto simp: running_iff)
    with 3 [of j] show ?thesis by blast
  qed
  then show ?thesis
    by (auto simp: register_token_def Let_def nth_append)
qed

theorem register_replaces_token_witness:
  "active_jobs registered_state ''a'' = Some 0 \<and>
   active_jobs (snd (register_token ''a'' registered_state)) ''a'' = Some 1 \<and>
   tokens (snd (register_token ''a'' registered_state)) = [True, False] \<and>
   tasks (run busy_trace) ''b'' = Some (AtLock scenario_request) \<and>
   active_jobs (run busy_trace) ''b'' = None"
  using register_replaces_token [of "''a''" registered_state busy_trace]
    register_replaces_token [of "''b''" registered_state busy_trace]
  by (simp add: registered_state_def busy_trace_def eval_defs)

text \<open>
  Claim C7 as stated fails: with a token already stored under the id a, the call for a
  goes on to generate, and the id now maps to the new event.
\<close>

theorem register_twice_no_error:
  "active_jobs registered_state ''a'' = Some 0 \<and>
   running (admitted_block ''a'' scenario_request no_fault registered_state) ''a'' \<and>
   active_jobs (admitted_block ''a'' scenario_request no_fault registered_state) ''a'' = Some 1 \<and>
   tokens (admitted_block ''a'' scenario_request no_fault registered_state) = [True, False]"
  by (simp add: registered_state_def eval_defs running_def)

end
